theory Spec2Isabelle
  imports Complex_Main
begin

section \<open>Bayesian measurement and verification engine: data model\<close>

text \<open>
  The engine (\<^verbatim>\<open>src/src/bayesEngine.js\<close>) computes with JavaScript numbers. They are
  embedded as \<^typ>\<open>real\<close>: arithmetic is exact, there is no rounding and no NaN. Where the
  source writes the literal \<^verbatim>\<open>Infinity\<close>, or divides by a quantity that can be zero and
  then uses the quotient as an array index, the embedding has an explicit branch.
  Vectors are lists, matrices are lists of rows, as the arrays of the source.
\<close>

type_synonym vec = "real list"
type_synonym mat = "real list list"

text \<open>The only exception the engine can raise on arrays of numbers.\<close>

datatype error = TypeError

text \<open>An optional argument that defaults to \<^verbatim>\<open>null\<close>; in arithmetic \<^verbatim>\<open>null\<close> is 0.\<close>

fun num_of :: "real option \<Rightarrow> real" where
  "num_of None = 0"
| "num_of (Some v) = v"

section \<open>Linear-algebra kernel\<close>

text \<open>
  \<^verbatim>\<open>xs.reduce((s, a, j) => f(s, a, j), z)\<close>: a left fold that also passes the index.
\<close>

definition reduce_idx :: "('b \<Rightarrow> 'a \<Rightarrow> nat \<Rightarrow> 'b) \<Rightarrow> 'b \<Rightarrow> 'a list \<Rightarrow> 'b" where
  "reduce_idx f z xs = foldl (\<lambda>s (a, j). f s a j) z (zip xs [0..<length xs])"

text \<open>\<^verbatim>\<open>xs.map((a, j) => f(a, j))\<close>.\<close>

definition map_idx :: "('a \<Rightarrow> nat \<Rightarrow> 'b) \<Rightarrow> 'a list \<Rightarrow> 'b list" where
  "map_idx f xs = map (\<lambda>(a, j). f a j) (zip xs [0..<length xs])"

text \<open>
  \<^verbatim>\<open>matMul(A, B)\<close> reads \<^verbatim>\<open>B[0].length\<close> first, which raises a TypeError on an empty
  \<open>B\<close>; then it accumulates each entry over \<open>l < B.length\<close>.
\<close>

definition matMul :: "mat \<Rightarrow> mat \<Rightarrow> error + mat" where
  "matMul A B =
     (case B of
        [] \<Rightarrow> Inl TypeError
      | b0 # _ \<Rightarrow>
          Inr (map (\<lambda>i. map (\<lambda>j. foldl (\<lambda>s l. s + A ! i ! l * B ! l ! j) 0 [0..<length B])
                             [0..<length b0])
                   [0..<length A]))"

definition matVecMul :: "mat \<Rightarrow> vec \<Rightarrow> vec" where
  "matVecMul A v = map (\<lambda>row. reduce_idx (\<lambda>s a j. s + a * v ! j) 0 row) A"

definition vecDot :: "vec \<Rightarrow> vec \<Rightarrow> real" where
  "vecDot a b = reduce_idx (\<lambda>s ai i. s + ai * b ! i) 0 a"

definition matAdd :: "mat \<Rightarrow> mat \<Rightarrow> mat" where
  "matAdd A B = map_idx (\<lambda>row i. map_idx (\<lambda>v j. v + B ! i ! j) row) A"

definition matScale :: "mat \<Rightarrow> real \<Rightarrow> mat" where
  "matScale A s = map (\<lambda>row. map (\<lambda>v. v * s) row) A"

definition identityMatrix :: "nat \<Rightarrow> mat" where
  "identityMatrix n = map (\<lambda>i. map (\<lambda>j. if i = j then 1 else 0) [0..<n]) [0..<n]"

subsection \<open>Inversion by Gauss-Jordan elimination with partial pivoting\<close>

text \<open>The augmented matrix \<open>[M | I]\<close> of line 49.\<close>

definition augment :: "mat \<Rightarrow> mat" where
  "augment M = map_idx (\<lambda>row i. row @ map (\<lambda>j. if i = j then 1 else 0) [0..<length M]) M"

text \<open>Lines 51 to 53: the row at or below \<open>col\<close> whose entry in column \<open>col\<close> is largest.\<close>

definition findMaxRow :: "mat \<Rightarrow> nat \<Rightarrow> nat \<Rightarrow> nat" where
  "findMaxRow aug n col =
     foldl (\<lambda>maxRow row. if \<bar>aug ! row ! col\<bar> > \<bar>aug ! maxRow ! col\<bar> then row else maxRow)
       col [col + 1..<n]"

text \<open>Line 54: \<^verbatim>\<open>[aug[col], aug[maxRow]] = [aug[maxRow], aug[col]]\<close>.\<close>

definition swapRows :: "mat \<Rightarrow> nat \<Rightarrow> nat \<Rightarrow> mat" where
  "swapRows aug i j = aug[i := aug ! j, j := aug ! i]"

text \<open>
  Lines 58 to 62: every row but \<open>col\<close> loses \<open>f\<close> times row \<open>col\<close>, where \<open>f\<close> is the row's
  own entry in column \<open>col\<close>, read before the row changes. Row \<open>col\<close> is not written in
  this loop, so the rows can be updated independently.
\<close>

definition eliminate :: "mat \<Rightarrow> nat \<Rightarrow> mat" where
  "eliminate aug col =
     map_idx (\<lambda>r row. if row = col then r
                       else (let f = r ! col in map2 (\<lambda>a c. a - f * c) r (aug ! col))) aug"

text \<open>The tolerance \<^verbatim>\<open>1e-14\<close> below which a pivot counts as zero.\<close>

definition pivot_tol :: real where
  "pivot_tol = 1 / 10 ^ 14"

text \<open>One pass of the outer loop (lines 50 to 63); \<open>None\<close> is the early \<^verbatim>\<open>return null\<close>.\<close>

definition invertStep :: "nat \<Rightarrow> mat \<Rightarrow> nat \<Rightarrow> mat option" where
  "invertStep n aug col =
     (let maxRow = findMaxRow aug n col;
          aug1 = swapRows aug col maxRow
      in if \<bar>aug1 ! col ! col\<bar> < pivot_tol then None
         else (let pivot = aug1 ! col ! col;
                   aug2 = aug1[col := map (\<lambda>v. v / pivot) (aug1 ! col)]
               in Some (eliminate aug2 col)))"

fun invertLoop :: "nat \<Rightarrow> mat \<Rightarrow> nat list \<Rightarrow> mat option" where
  "invertLoop n aug [] = Some aug"
| "invertLoop n aug (col # cols) =
     (case invertStep n aug col of
        None \<Rightarrow> None
      | Some aug' \<Rightarrow> invertLoop n aug' cols)"

text \<open>\<^verbatim>\<open>matInvert(M)\<close>: \<open>None\<close> is \<^verbatim>\<open>null\<close>, the designated no-inverse result.\<close>

definition matInvert :: "mat \<Rightarrow> mat option" where
  "matInvert M =
     (let n = length M
      in map_option (map (drop n)) (invertLoop n (augment M) [0..<n]))"

subsection \<open>Determinant\<close>

text \<open>
  Closed forms for sizes 1, 2 and 3; any other size (0 included) goes through the
  elimination of lines 77 to 91, which returns 0 at a pivot below the tolerance.
\<close>

definition luReduce :: "mat \<Rightarrow> nat \<Rightarrow> nat \<Rightarrow> mat" where
  "luReduce A n i =
     map_idx (\<lambda>r k. if i < k \<and> k < n
                     then (let f = r ! i / A ! i ! i
                           in map_idx (\<lambda>v j. if i \<le> j \<and> j < n then v - f * A ! i ! j else v) r)
                     else r) A"

fun luLoop :: "nat \<Rightarrow> mat \<Rightarrow> real \<Rightarrow> nat list \<Rightarrow> real" where
  "luLoop n A det [] = det"
| "luLoop n A det (i # is) =
     (let maxRow = findMaxRow A n i;
          A1 = (if maxRow \<noteq> i then swapRows A i maxRow else A);
          det1 = (if maxRow \<noteq> i then det * (- 1) else det)
      in if \<bar>A1 ! i ! i\<bar> < pivot_tol then 0
         else luLoop n (luReduce A1 n i) (det1 * A1 ! i ! i) is)"

definition matDet :: "mat \<Rightarrow> real" where
  "matDet M =
     (let n = length M
      in if n = 1 then M ! 0 ! 0
         else if n = 2 then M ! 0 ! 0 * M ! 1 ! 1 - M ! 0 ! 1 * M ! 1 ! 0
         else if n = 3 then
           M ! 0 ! 0 * (M ! 1 ! 1 * M ! 2 ! 2 - M ! 1 ! 2 * M ! 2 ! 1)
           - M ! 0 ! 1 * (M ! 1 ! 0 * M ! 2 ! 2 - M ! 1 ! 2 * M ! 2 ! 0)
           + M ! 0 ! 2 * (M ! 1 ! 0 * M ! 2 ! 1 - M ! 1 ! 1 * M ! 2 ! 0)
         else luLoop n M 1 [0..<n])"

section \<open>Special functions\<close>

text \<open>
  A number that may be one of the two infinities the source writes as literals
  (\<^verbatim>\<open>Infinity\<close>, \<^verbatim>\<open>-Infinity\<close>). \<open>fin\<close> reads a finite one; it is used where the caller's
  contract (shape and degrees of freedom above 0) makes the value finite.
\<close>

datatype xreal = Fin real | PInf | NInf

fun fin :: "xreal \<Rightarrow> real" where
  "fin (Fin r) = r"

text \<open>A finite number minus a possibly infinite one.\<close>

fun xsub :: "real \<Rightarrow> xreal \<Rightarrow> xreal" where
  "xsub a (Fin b) = Fin (a - b)"
| "xsub a PInf = NInf"
| "xsub a NInf = PInf"

subsection \<open>Log-gamma\<close>

definition lanczos_g :: nat where
  "lanczos_g = 7"

definition lanczos_coef :: "real list" where
  "lanczos_coef =
     [0.99999999999980993, 676.5203681218851, - 1259.1392167224028,
      771.32342877765313, - 176.61502916214059, 12.507343278686905,
      - 0.13857109526572012, 9.9843695780195716 / 10 ^ 6, 1.5056327351493116 / 10 ^ 7]"

text \<open>Lines 114 to 118 of \<^verbatim>\<open>logGamma\<close>: the Lanczos sum, reached when \<open>z \<ge> 0.5\<close>.\<close>

definition lanczos :: "real \<Rightarrow> real" where
  "lanczos z0 =
     (let z = z0 - 1;
          x = foldl (\<lambda>x i. x + lanczos_coef ! i / (z + real i)) (lanczos_coef ! 0)
                [1..<lanczos_g + 2];
          t = z + real lanczos_g + 0.5
      in 0.5 * ln (2 * pi) + (z + 0.5) * ln t - t + ln x)"

text \<open>
  \<^verbatim>\<open>logGamma(z)\<close>: \<^verbatim>\<open>Infinity\<close> at \<open>z \<le> 0\<close>, the reflection formula with a recursive
  call below 0.5, the Lanczos sum otherwise.
\<close>

function logGamma :: "real \<Rightarrow> xreal" where
  "logGamma z =
     (if z \<le> 0 then PInf
      else if z < 0.5 then xsub (ln (pi / sin (pi * z))) (logGamma (1 - z))
      else Fin (lanczos z))"
  by pat_completeness auto
termination
  by (relation "measure (\<lambda>z. if z < 0.5 then 1 else 0)") auto

declare logGamma.simps [simp del]

text \<open>
  The same control flow, counting the nested calls \<^verbatim>\<open>logGamma\<close> makes before it
  returns.
\<close>

function logGamma_depth :: "real \<Rightarrow> nat" where
  "logGamma_depth z =
     (if z \<le> 0 then 0
      else if z < 0.5 then Suc (logGamma_depth (1 - z))
      else 0)"
  by pat_completeness auto
termination
  by (relation "measure (\<lambda>z. if z < 0.5 then 1 else 0)") auto

declare logGamma_depth.simps [simp del]

subsection \<open>Student-t density, distribution function and quantile\<close>

text \<open>
  \<^verbatim>\<open>studentTPDF(x, nu, mu, scale)\<close>. The callers pass all four arguments. The contract is
  \<open>nu > 0\<close> and \<open>scale > 0\<close>.
\<close>

definition studentTPDF :: "real \<Rightarrow> real \<Rightarrow> real \<Rightarrow> real \<Rightarrow> real" where
  "studentTPDF x nu mu scale =
     (let z = (x - mu) / scale;
          logP = fin (logGamma ((nu + 1) / 2)) - fin (logGamma (nu / 2))
                 - 0.5 * ln (nu * pi) - ln scale
                 - ((nu + 1) / 2) * ln (1 + z * z / nu)
      in exp logP)"

text \<open>\<^verbatim>\<open>if (Math.abs(v) < 1e-30) v = 1e-30\<close>, the guard of Lentz's method.\<close>

definition floor_tiny :: "real \<Rightarrow> real" where
  "floor_tiny v = (if \<bar>v\<bar> < 1 / 10 ^ 30 then 1 / 10 ^ 30 else v)"

text \<open>
  The loop of \<^verbatim>\<open>betaCF\<close> (lines 178 to 190), from \<open>m\<close> to 200, with its \<^verbatim>\<open>break\<close> when the
  last factor is within \<open>10\<^sup>-\<^sup>1\<^sup>4\<close> of 1.
\<close>

function betaCF_loop :: "real \<Rightarrow> real \<Rightarrow> real \<Rightarrow> nat \<Rightarrow> real \<Rightarrow> real \<Rightarrow> real \<Rightarrow> real" where
  "betaCF_loop a b x m c d h =
     (if m \<le> 200 then
        (let qab = a + b; qap = a + 1; qam = a - 1;
             m2 = 2 * real m;
             aa = real m * (b - real m) * x / ((qam + m2) * (a + m2));
             d1 = 1 / floor_tiny (1 + aa * d);
             c1 = floor_tiny (1 + aa / c);
             h1 = h * (d1 * c1);
             aa2 = - (a + real m) * (qab + real m) * x / ((a + m2) * (qap + m2));
             d2 = 1 / floor_tiny (1 + aa2 * d1);
             c2 = floor_tiny (1 + aa2 / c1);
             del = d2 * c2;
             h2 = h1 * del
         in if \<bar>del - 1\<bar> < 1 / 10 ^ 14 then h2
            else betaCF_loop a b x (m + 1) c2 d2 h2)
      else h)"
  by pat_completeness auto
termination
  by (relation "measure (\<lambda>(a, b, x, m, c, d, h). 201 - m)") auto

declare betaCF_loop.simps [simp del]

definition betaCF :: "real \<Rightarrow> real \<Rightarrow> real \<Rightarrow> real" where
  "betaCF a b x =
     (let qab = a + b; qap = a + 1;
          d = 1 / floor_tiny (1 - qab * x / qap)
      in betaCF_loop a b x 1 1 d d)"

text \<open>\<^verbatim>\<open>regIncBeta(a, b, x)\<close>.\<close>

definition regIncBeta :: "real \<Rightarrow> real \<Rightarrow> real \<Rightarrow> real" where
  "regIncBeta a b x =
     (if x \<le> 0 then 0
      else if x \<ge> 1 then 1
      else (let lnBeta = fin (logGamma a) + fin (logGamma b) - fin (logGamma (a + b));
                front = exp (ln x * a + ln (1 - x) * b - lnBeta)
            in if x < (a + 1) / (a + b + 2) then front * betaCF a b x / a
               else 1 - front * betaCF b a (1 - x) / b))"

text \<open>\<^verbatim>\<open>studentTCDF(x, nu, mu, scale)\<close>.\<close>

definition studentTCDF :: "real \<Rightarrow> real \<Rightarrow> real \<Rightarrow> real \<Rightarrow> real" where
  "studentTCDF x nu mu scale =
     (let z = (x - mu) / scale;
          t = nu / (nu + z * z)
      in if z \<ge> 0 then 1 - 0.5 * regIncBeta (nu / 2) 0.5 t
         else 0.5 * regIncBeta (nu / 2) 0.5 t)"

text \<open>
  \<^verbatim>\<open>studentTQuantile(p, nu, mu, scale)\<close>: the infinities outside \<open>(0, 1)\<close>, the location at
  \<open>p = 0.5\<close>, otherwise 80 bisection steps on \<open>mu \<plusminus> 50 scale\<close>.
\<close>

fun bisect :: "nat \<Rightarrow> real \<Rightarrow> real \<Rightarrow> real \<Rightarrow> real \<Rightarrow> real \<Rightarrow> real \<Rightarrow> real" where
  "bisect 0 p nu mu scale lo hi = (lo + hi) / 2"
| "bisect (Suc k) p nu mu scale lo hi =
     (let mid = (lo + hi) / 2
      in if studentTCDF mid nu mu scale < p then bisect k p nu mu scale mid hi
         else bisect k p nu mu scale lo mid)"

definition studentTQuantile :: "real \<Rightarrow> real \<Rightarrow> real \<Rightarrow> real \<Rightarrow> xreal" where
  "studentTQuantile p nu mu scale =
     (if p \<le> 0 then NInf
      else if p \<ge> 1 then PInf
      else if p = 0.5 then Fin mu
      else Fin (bisect 80 p nu mu scale (mu - 50 * scale) (mu + 50 * scale)))"

section \<open>Design matrix\<close>

text \<open>
  \<^verbatim>\<open>buildDesignMatrix(temps, modelType, cp1 = null, cp2 = null)\<close>: a \<^verbatim>\<open>switch\<close> on the
  tag with a \<^verbatim>\<open>default\<close> branch.
\<close>

definition buildDesignMatrix :: "real list \<Rightarrow> string \<Rightarrow> real option \<Rightarrow> real option \<Rightarrow> mat" where
  "buildDesignMatrix temps modelType cp1 cp2 =
     (if modelType = ''3PH'' then map (\<lambda>t. [1, max 0 (num_of cp1 - t)]) temps
      else if modelType = ''3PC'' then map (\<lambda>t. [1, max 0 (t - num_of cp1)]) temps
      else if modelType = ''5P'' then
        map (\<lambda>t. [1, max 0 (num_of cp1 - t), max 0 (t - num_of cp2)]) temps
      else map (\<lambda>t. [1, t]) temps)"

section \<open>Conjugate Normal-Inverse-Gamma regression\<close>

text \<open>
  The object \<^verbatim>\<open>bayesianRegression\<close> returns. The fields \<^verbatim>\<open>n\<close> and \<^verbatim>\<open>p\<close> of the source are
  \<open>n_obs\<close> and \<open>p_par\<close> here.
\<close>

record posterior =
  muN :: vec
  LambdaN :: mat
  LambdaN_inv :: mat
  aN :: real
  bN :: real
  logML :: real
  n_obs :: nat
  p_par :: nat
  betaOLS :: vec
  R2 :: real
  cvRMSE_OLS :: real

text \<open>Lines 245 to 249: \<open>X\<^sup>T X\<close>, accumulated over the first \<open>n\<close> rows of \<open>X\<close>.\<close>

definition XtX2 :: "mat \<Rightarrow> nat \<Rightarrow> nat \<Rightarrow> mat" where
  "XtX2 X n p =
     map (\<lambda>j. map (\<lambda>k. foldl (\<lambda>s i. s + X ! i ! j * X ! i ! k) 0 [0..<n]) [0..<p]) [0..<p]"

text \<open>Lines 251 to 254: \<open>X\<^sup>T y\<close>.\<close>

definition Xty :: "mat \<Rightarrow> vec \<Rightarrow> nat \<Rightarrow> nat \<Rightarrow> vec" where
  "Xty X y n p = map (\<lambda>j. foldl (\<lambda>s i. s + X ! i ! j * y ! i) 0 [0..<n]) [0..<p]"

text \<open>
  \<^verbatim>\<open>bayesianRegression(X, y, mu0, Lambda0, a0, b0)\<close>. The result \<open>Inr None\<close> is the
  \<^verbatim>\<open>return null\<close> of line 259. \<open>Inl TypeError\<close> is the exception of \<^verbatim>\<open>X[0].length\<close> on an
  empty \<open>X\<close>, and of \<^verbatim>\<open>X[i][j]\<close> when \<open>y\<close> has more entries than \<open>X\<close> has rows. Lines 240
  to 243 compute a matrix that is never read and cannot raise once \<^verbatim>\<open>X[0]\<close> exists; they
  have no counterpart here. The arrays are taken with the shapes of the source's
  documentation: rows of \<open>X\<close> of one length \<open>p\<close>, \<open>mu0\<close> of length \<open>p\<close>, \<open>Lambda0\<close> of size
  \<open>p \<times> p\<close>. The last two fields divide and take a square root; they are the source's
  values where the divisor is not 0 and the radicand not negative.
\<close>

definition bayesianRegression ::
  "mat \<Rightarrow> vec \<Rightarrow> vec \<Rightarrow> mat \<Rightarrow> real \<Rightarrow> real \<Rightarrow> error + posterior option" where
  "bayesianRegression X y mu0 Lambda0 a0 b0 =
     (case X of
        [] \<Rightarrow> Inl TypeError
      | x0 # _ \<Rightarrow>
          (let n = length y; p = length x0
           in if length X < n \<and> 0 < p then Inl TypeError
              else
                (let XtX = XtX2 X n p;
                     Xy = Xty X y n p;
                     LN = matAdd Lambda0 XtX
                 in case matInvert LN of
                      None \<Rightarrow> Inr None
                    | Some LN_inv \<Rightarrow>
                        (let Lambda0_mu0 = matVecMul Lambda0 mu0;
                             sumv = map_idx (\<lambda>v j. v + Xy ! j) Lambda0_mu0;
                             mN = matVecMul LN_inv sumv;
                             a = a0 + real n / 2;
                             yty = vecDot y y;
                             mu0_L0_mu0 = vecDot mu0 (matVecMul Lambda0 mu0);
                             muN_LN_muN = vecDot mN (matVecMul LN mN);
                             b = b0 + 0.5 * (yty + mu0_L0_mu0 - muN_LN_muN);
                             logDetLambda0 = ln \<bar>matDet Lambda0\<bar>;
                             logDetLambdaN = ln \<bar>matDet LN\<bar>;
                             lml = - real n / 2 * ln (2 * pi)
                                   + 0.5 * logDetLambda0 - 0.5 * logDetLambdaN
                                   + a0 * ln b0 - a * ln b
                                   + fin (logGamma a) - fin (logGamma a0);
                             bOLS = (case matInvert XtX of
                                       Some XtX_inv \<Rightarrow> matVecMul XtX_inv Xy
                                     | None \<Rightarrow> mN);
                             yHat = map (\<lambda>xi. vecDot xi bOLS) X;
                             residuals = map_idx (\<lambda>yi i. yi - yHat ! i) y;
                             SSres = reduce_idx (\<lambda>s r _. s + r * r) 0 residuals;
                             yMean = reduce_idx (\<lambda>a b _. a + b) 0 y / real n;
                             SStot = reduce_idx (\<lambda>s yi _. s + (yi - yMean) ^ 2) 0 y
                         in Inr (Some \<lparr> muN = mN, LambdaN = LN, LambdaN_inv = LN_inv,
                                        aN = a, bN = b, logML = lml,
                                        n_obs = n, p_par = p,
                                        betaOLS = bOLS,
                                        R2 = 1 - SSres / SStot,
                                        cvRMSE_OLS =
                                          sqrt (SSres / (real n - real p)) / yMean * 100 \<rparr>)))))"

section \<open>Change-point search\<close>

text \<open>
  The prior sliders (\<^verbatim>\<open>priors\<close>). \<^verbatim>\<open>slope2\<close> may be absent; \<^verbatim>\<open>priors.slope2 || priors.slope\<close>
  takes \<^verbatim>\<open>slope\<close> when it is absent or 0.
\<close>

record priors =
  baseload :: real
  slope :: real
  slope2 :: "real option"
  strength :: real
  noiseA :: real
  noiseB :: real

text \<open>\<^verbatim>\<open>buildPriorParams(priors, p)\<close>; the caller destructures the four results at once.\<close>

definition buildPriorParams :: "priors \<Rightarrow> nat \<Rightarrow> vec \<times> mat \<times> real \<times> real" where
  "buildPriorParams pri p =
     (let mu0 = (if p = 2 then [baseload pri, slope pri]
                 else [baseload pri, slope pri,
                       (case slope2 pri of
                          None \<Rightarrow> slope pri
                        | Some s \<Rightarrow> if s = 0 then slope pri else s)]);
          lambda = strength pri;
          Lambda0 = map (\<lambda>row. map (\<lambda>v. v * lambda) row) (identityMatrix p)
      in (mu0, Lambda0, noiseA pri, noiseB pri))"

text \<open>
  An entry of \<^verbatim>\<open>results\<close> as the scan pushes it (\<^verbatim>\<open>cp\<close>, \<^verbatim>\<open>cp2\<close> for the 5P shape only,
  \<^verbatim>\<open>logML\<close>, \<^verbatim>\<open>post\<close>), and as it is returned, with the field \<^verbatim>\<open>posterior\<close> added. The
  fields carry the prefix \<open>c_\<close>.
\<close>

record raw_candidate =
  c_cp :: real
  c_cp2 :: "real option"
  c_logML :: real
  c_post :: posterior

record candidate = raw_candidate +
  c_posterior :: real

text \<open>
  The body of both loops (lines 313 to 315 and 321 to 323): the design matrix at the
  candidate, the prior for its number of columns, the regression.
\<close>

definition candidateFit ::
  "real list \<Rightarrow> vec \<Rightarrow> string \<Rightarrow> priors \<Rightarrow> real \<Rightarrow> real option \<Rightarrow> error + posterior option" where
  "candidateFit temps y modelType pri cp cp2 =
     (let X = buildDesignMatrix temps modelType (Some cp) cp2
      in case X of
           [] \<Rightarrow> Inl TypeError
         | x0 # _ \<Rightarrow>
             (case buildPriorParams pri (length x0) of
                (mu0, Lambda0, a0, b0) \<Rightarrow> bayesianRegression X y mu0 Lambda0 a0 b0))"

text \<open>\<^verbatim>\<open>if (post) results.push({ cp, cp2, logML: post.logML, post })\<close>.\<close>

definition pushFit :: "raw_candidate list \<Rightarrow> real \<Rightarrow> real option \<Rightarrow> posterior option \<Rightarrow> raw_candidate list" where
  "pushFit results cp cp2 po =
     (case po of
        None \<Rightarrow> results
      | Some post \<Rightarrow> results @ [\<lparr> c_cp = cp, c_cp2 = cp2, c_logML = logML post, c_post = post \<rparr>])"

text \<open>
  The loop \<^verbatim>\<open>for (let cp = tMin + 3; cp <= tMax - 3; cp += cpStep)\<close> of the 3PH and 3PC
  shapes. The step is an argument of the caller; with a step that is not positive the loop
  does not end, and the result is \<open>None\<close>. An exception of the regression leaves the loop.
\<close>

partial_function (option) scan3 ::
  "real list \<Rightarrow> vec \<Rightarrow> string \<Rightarrow> priors \<Rightarrow> real \<Rightarrow> real \<Rightarrow> raw_candidate list \<Rightarrow> real
     \<Rightarrow> (error + raw_candidate list) option" where
  "scan3 temps y modelType pri cpStep hi results cp =
     (if cp \<le> hi then
        (case candidateFit temps y modelType pri cp None of
           Inl e \<Rightarrow> Some (Inl e)
         | Inr po \<Rightarrow> scan3 temps y modelType pri cpStep hi (pushFit results cp None po) (cp + cpStep))
      else Some (Inr results))"

text \<open>
  The values the variable of \<^verbatim>\<open>for (let c = lo; c <= hi; c += step)\<close> takes, for a positive
  step.
\<close>

function grid :: "real \<Rightarrow> real \<Rightarrow> real \<Rightarrow> real list" where
  "grid cp hi step = (if 0 < step \<and> cp \<le> hi then cp # grid (cp + step) hi step else [])"
  by pat_completeness auto
termination
proof (relation "measure (\<lambda>(cp, hi, step). nat (\<lfloor>(hi - cp) / step\<rfloor> + 1))")
  show "wf (measure (\<lambda>(cp, hi, step). nat (\<lfloor>(hi - cp) / step\<rfloor> + 1)))"
    by simp
next
  fix cp hi step :: real
  assume a: "0 < step \<and> cp \<le> hi"
  then have "(hi - (cp + step)) / step = (hi - cp) / step - 1"
    by (simp add: field_simps)
  moreover have "0 \<le> \<lfloor>(hi - cp) / step\<rfloor>"
    using a by simp
  ultimately show "((cp + step, hi, step), (cp, hi, step))
      \<in> measure (\<lambda>(cp, hi, step). nat (\<lfloor>(hi - cp) / step\<rfloor> + 1))"
    by simp
qed

declare grid.simps [simp del]


text \<open>
  The two nested loops of the 5P shape, both with step 1:
  \<^verbatim>\<open>for (cph = tMin + 4; cph <= tMax - 10; cph += 1)\<close> around
  \<^verbatim>\<open>for (cpc = cph + 6; cpc <= tMax - 4; cpc += 1)\<close>.
\<close>

fun scanInner5 ::
  "real list \<Rightarrow> vec \<Rightarrow> priors \<Rightarrow> real \<Rightarrow> raw_candidate list \<Rightarrow> real list
     \<Rightarrow> error + raw_candidate list" where
  "scanInner5 temps y pri cph results [] = Inr results"
| "scanInner5 temps y pri cph results (cpc # rest) =
     (case candidateFit temps y ''5P'' pri cph (Some cpc) of
        Inl e \<Rightarrow> Inl e
      | Inr po \<Rightarrow> scanInner5 temps y pri cph (pushFit results cph (Some cpc) po) rest)"

fun scanOuter5 ::
  "real list \<Rightarrow> vec \<Rightarrow> priors \<Rightarrow> real \<Rightarrow> raw_candidate list \<Rightarrow> real list
     \<Rightarrow> error + raw_candidate list" where
  "scanOuter5 temps y pri tMax results [] = Inr results"
| "scanOuter5 temps y pri tMax results (cph # rest) =
     (case scanInner5 temps y pri cph results (grid (cph + 6) (tMax - 4) 1) of
        Inl e \<Rightarrow> Inl e
      | Inr results' \<Rightarrow> scanOuter5 temps y pri tMax results' rest)"

text \<open>
  Lines 329 to 337: nothing to do on an empty \<^verbatim>\<open>results\<close>; otherwise every candidate gets
  \<^verbatim>\<open>posterior = unnorm[i] / Z\<close>.
\<close>

definition normalize :: "raw_candidate list \<Rightarrow> candidate list" where
  "normalize results =
     (if length results = 0 then []
      else (let maxLogML = Max (set (map c_logML results));
                unnorm = map (\<lambda>r. exp (c_logML r - maxLogML)) results;
                Z = reduce_idx (\<lambda>a b _. a + b) 0 unnorm
            in map_idx (\<lambda>r i. \<lparr> c_cp = c_cp r, c_cp2 = c_cp2 r, c_logML = c_logML r,
                                  c_post = c_post r, c_posterior = unnorm ! i / Z \<rparr>) results))"

text \<open>
  \<^verbatim>\<open>changePointPosterior(temps, y, modelType, priors, cpStep = 0.5)\<close>. On an empty
  \<^verbatim>\<open>temps\<close>, \<^verbatim>\<open>Math.min()\<close> is \<^verbatim>\<open>Infinity\<close> and \<^verbatim>\<open>Math.max()\<close> is \<^verbatim>\<open>-Infinity\<close>, so that no
  loop is entered. The result is \<open>None\<close> when the call does not return, \<open>Some (Inl e)\<close> when
  it raises, \<open>Some (Inr rs)\<close> when it returns \<open>rs\<close>.
\<close>

definition changePointPosterior ::
  "real list \<Rightarrow> vec \<Rightarrow> string \<Rightarrow> priors \<Rightarrow> real option
     \<Rightarrow> (error + candidate list) option" where
  "changePointPosterior temps y modelType pri cpStepArg =
     (let cpStep = (case cpStepArg of None \<Rightarrow> 0.5 | Some s \<Rightarrow> s)
      in if temps = [] then Some (Inr [])
         else (let tMin = Min (set temps); tMax = Max (set temps)
               in map_option (map_sum id normalize)
                    (if modelType = ''3PH'' \<or> modelType = ''3PC''
                     then scan3 temps y modelType pri cpStep (tMax - 3) [] (tMin + 3)
                     else if modelType = ''5P''
                     then Some (scanOuter5 temps y pri tMax [] (grid (tMin + 4) (tMax - 10) 1))
                     else Some (Inr []))))"

section \<open>Posterior summaries\<close>

text \<open>
  The marginal variance factor of coefficient \<open>j\<close>, the radicand of line 374:
  \<^verbatim>\<open>(post.bN / post.aN) * post.LambdaN_inv[j][j]\<close>. It is the source's value where \<open>aN\<close>
  is not 0 and \<open>LambdaN_inv\<close> has the entry.
\<close>

definition marginalVariance :: "posterior \<Rightarrow> nat \<Rightarrow> real" where
  "marginalVariance post j = (bN post / aN post) * (LambdaN_inv post ! j ! j)"


text \<open>
  The values of the fields of the object \<^verbatim>\<open>parameterPosterior\<close> returns: a number, a pair
  of interval ends, a list of points \<^verbatim>\<open>{x, density}\<close>.
\<close>

datatype jsval = Num real | Interval xreal xreal | Curve "(real \<times> real) list"

text \<open>
  \<^verbatim>\<open>parameterPosterior(post, paramIndex, nPoints = 200)\<close>. The returned object is the list of
  its fields, in the order of the object literal of line 394. \<open>Inl TypeError\<close> is the
  exception of \<^verbatim>\<open>post.LambdaN_inv[paramIndex][paramIndex]\<close> when \<^verbatim>\<open>LambdaN_inv\<close> has no row
  \<open>paramIndex\<close>. The fields are the source's where \<open>aN\<close> and the radicand of the scale are
  positive and \<open>muN\<close> has the entry \<open>paramIndex\<close>; elsewhere the source computes with
  \<^verbatim>\<open>NaN\<close> or \<^verbatim>\<open>Infinity\<close>, which the real numbers here do not have.
\<close>

definition parameterPosterior ::
  "posterior \<Rightarrow> nat \<Rightarrow> nat option \<Rightarrow> error + (string \<times> jsval) list" where
  "parameterPosterior post paramIndex nPointsArg =
     (let nPoints = (case nPointsArg of None \<Rightarrow> 200 | Some k \<Rightarrow> k)
      in if length (LambdaN_inv post) \<le> paramIndex then Inl TypeError
         else
           (let nu = 2 * aN post;
                mu = muN post ! paramIndex;
                scale = sqrt (marginalVariance post paramIndex);
                range = 4 * scale;
                points = map (\<lambda>i. (let x = mu - range + (2 * range * real i) / (real nPoints - 1)
                                     in (x, studentTPDF x nu mu scale))) [0..<nPoints];
                ci95 = Interval (studentTQuantile 0.025 nu mu scale)
                                (studentTQuantile 0.975 nu mu scale);
                ci80 = Interval (studentTQuantile 0.10 nu mu scale)
                                (studentTQuantile 0.90 nu mu scale)
            in Inr [(''points'', Curve points), (''mean'', Num mu), (''ci95'', ci95),
                    (''ci80'', ci80), (''nu'', Num nu), (''scale'', Num scale)]))"

section \<open>Monte Carlo sampler and savings posterior\<close>

text \<open>
  \<^verbatim>\<open>Math.random()\<close> is the one effect of the engine. The random source is a sequence of
  numbers of \<open>[0, 1)\<close> and a position in it; every function that draws takes the position
  and returns the new one. The loops of the sampler may run forever on some sequences
  (always 0, always rejected); such a run is \<open>None\<close>.
\<close>

type_synonym rng = "nat \<Rightarrow> real"

text \<open>\<^verbatim>\<open>let u = 0; while (u === 0) u = Math.random();\<close>\<close>

partial_function (option) drawNonzero :: "rng \<Rightarrow> nat \<Rightarrow> (real \<times> nat) option" where
  "drawNonzero src pos =
     (let u = src pos
      in if u = 0 then drawNonzero src (pos + 1) else Some (u, pos + 1))"

text \<open>\<^verbatim>\<open>sampleNormal()\<close>, by Box and Muller.\<close>

definition sampleNormal :: "rng \<Rightarrow> nat \<Rightarrow> (real \<times> nat) option" where
  "sampleNormal src pos =
     (case drawNonzero src pos of
        None \<Rightarrow> None
      | Some (u, pos1) \<Rightarrow>
          (case drawNonzero src pos1 of
             None \<Rightarrow> None
           | Some (v, pos2) \<Rightarrow> Some (sqrt (- 2 * ln u) * cos (2 * pi * v), pos2)))"

text \<open>
  \<^verbatim>\<open>sampleGamma(shape, scale)\<close>, by Marsaglia and Tsang. \<open>gammaInner\<close> is the
  \<^verbatim>\<open>do ... while (v <= 0)\<close> loop, \<open>gammaLoop\<close> the \<^verbatim>\<open>while (true)\<close> around it. \<^verbatim>\<open>Math.log(0)\<close>
  is \<^verbatim>\<open>-Infinity\<close>, below every number, hence the case \<open>u = 0\<close> of the second test. Below
  shape 1 the function calls itself at \<open>shape + 1\<close> first, and draws afterwards.
\<close>

partial_function (option) gammaInner :: "rng \<Rightarrow> real \<Rightarrow> nat \<Rightarrow> (real \<times> real \<times> nat) option" where
  "gammaInner src c pos =
     (case sampleNormal src pos of
        None \<Rightarrow> None
      | Some (x, pos1) \<Rightarrow>
          (let v = 1 + c * x
           in if v \<le> 0 then gammaInner src c pos1 else Some (x, v, pos1)))"

partial_function (option) gammaLoop :: "rng \<Rightarrow> real \<Rightarrow> real \<Rightarrow> real \<Rightarrow> nat \<Rightarrow> (real \<times> nat) option" where
  "gammaLoop src d c scale pos =
     (case gammaInner src c pos of
        None \<Rightarrow> None
      | Some (x, v0, pos1) \<Rightarrow>
          (let v = v0 * v0 * v0;
               u = src pos1;
               pos2 = pos1 + 1
           in if u < 1 - 0.0331 * x * x * x * x then Some (d * v * scale, pos2)
              else if u = 0 \<or> ln u < 0.5 * x * x + d * (1 - v + ln v)
              then Some (d * v * scale, pos2)
              else gammaLoop src d c scale pos2))"

partial_function (option) sampleGamma :: "rng \<Rightarrow> real \<Rightarrow> real \<Rightarrow> nat \<Rightarrow> (real \<times> nat) option" where
  "sampleGamma src shape scale pos =
     (if shape < 1 then
        Option.bind (sampleGamma src (shape + 1) scale pos)
          (\<lambda>(g, pos1). Some (g * (src pos1 powr (1 / shape)), pos1 + 1))
      else (let d = shape - 1 / 3;
                c = 1 / sqrt (9 * d)
            in gammaLoop src d c scale pos))"

definition sampleInvGamma :: "rng \<Rightarrow> real \<Rightarrow> real \<Rightarrow> nat \<Rightarrow> (real \<times> nat) option" where
  "sampleInvGamma src a b pos =
     (case sampleGamma src a 1 pos of
        None \<Rightarrow> None
      | Some (g, pos1) \<Rightarrow> Some (b / g, pos1))"

text \<open>
  \<^verbatim>\<open>sampleMVN(mu, Sigma)\<close>. \<open>cholEntry\<close> is the body of the two loops of the Cholesky
  decomposition (lines 586 to 588), which writes \<^verbatim>\<open>L[i][j]\<close>; \<open>cholesky\<close> runs it for
  \<open>j \<le> i < n\<close> from the zero matrix. Then \<open>n\<close> standard normal draws, in order.
\<close>

definition cholEntry :: "mat \<Rightarrow> mat \<Rightarrow> nat \<Rightarrow> nat \<Rightarrow> mat" where
  "cholEntry SigmaM L i j =
     (let s = foldl (\<lambda>s k. s - L ! i ! k * L ! j ! k) (SigmaM ! i ! j) [0..<j]
      in L[i := (L ! i)[j := (if i = j then sqrt (max s (1 / 10 ^ 15)) else s / L ! j ! j)]])"

definition cholesky :: "mat \<Rightarrow> nat \<Rightarrow> mat" where
  "cholesky SigmaM n =
     foldl (\<lambda>L i. foldl (\<lambda>L j. cholEntry SigmaM L i j) L [0..<i + 1])
       (replicate n (replicate n 0)) [0..<n]"

fun drawNormals :: "rng \<Rightarrow> nat \<Rightarrow> nat \<Rightarrow> (real list \<times> nat) option" where
  "drawNormals src 0 pos = Some ([], pos)"
| "drawNormals src (Suc k) pos =
     (case sampleNormal src pos of
        None \<Rightarrow> None
      | Some (z, pos1) \<Rightarrow>
          (case drawNormals src k pos1 of
             None \<Rightarrow> None
           | Some (zs, pos2) \<Rightarrow> Some (z # zs, pos2)))"

definition sampleMVN :: "rng \<Rightarrow> vec \<Rightarrow> mat \<Rightarrow> nat \<Rightarrow> (vec \<times> nat) option" where
  "sampleMVN src mu SigmaM pos =
     (let n = length mu;
          L = cholesky SigmaM n
      in case drawNormals src n pos of
           None \<Rightarrow> None
         | Some (z, pos1) \<Rightarrow>
             Some (map_idx (\<lambda>m i. m + reduce_idx (\<lambda>s l j. s + l * z ! j) 0 (L ! i)) mu, pos1))"

text \<open>An entry of \<^verbatim>\<open>reportingData\<close>.\<close>

record observation =
  temp :: real
  actual :: real

text \<open>The \<^verbatim>\<open>switch\<close> of lines 505 to 510, and the sum of lines 502 to 513.\<close>

definition xStarAt :: "string \<Rightarrow> real option \<Rightarrow> real option \<Rightarrow> real \<Rightarrow> vec" where
  "xStarAt modelType cp1 cp2 t =
     (if modelType = ''3PH'' then [1, max 0 (num_of cp1 - t)]
      else if modelType = ''3PC'' then [1, max 0 (t - num_of cp1)]
      else if modelType = ''5P'' then [1, max 0 (num_of cp1 - t), max 0 (t - num_of cp2)]
      else [1, t])"

definition totalSavings ::
  "string \<Rightarrow> real option \<Rightarrow> real option \<Rightarrow> observation list \<Rightarrow> vec \<Rightarrow> real" where
  "totalSavings modelType cp1 cp2 reportingData beta =
     foldl (\<lambda>tot d. tot + (vecDot (xStarAt modelType cp1 cp2 (temp d)) beta - actual d))
       0 reportingData"

text \<open>One pass of the loop of lines 494 to 515, and the loop, which appends to \<^verbatim>\<open>samples\<close>.\<close>

definition drawSample ::
  "rng \<Rightarrow> posterior \<Rightarrow> string \<Rightarrow> real option \<Rightarrow> real option \<Rightarrow> observation list \<Rightarrow> nat
     \<Rightarrow> (real \<times> nat) option" where
  "drawSample src post modelType cp1 cp2 reportingData pos =
     (case sampleInvGamma src (aN post) (bN post) pos of
        None \<Rightarrow> None
      | Some (sigma2, pos1) \<Rightarrow>
          (case sampleMVN src (muN post) (matScale (LambdaN_inv post) sigma2) pos1 of
             None \<Rightarrow> None
           | Some (beta, pos2) \<Rightarrow>
               Some (totalSavings modelType cp1 cp2 reportingData beta, pos2)))"

fun drawSamples ::
  "rng \<Rightarrow> posterior \<Rightarrow> string \<Rightarrow> real option \<Rightarrow> real option \<Rightarrow> observation list
     \<Rightarrow> nat \<Rightarrow> real list \<Rightarrow> nat \<Rightarrow> (real list \<times> nat) option" where
  "drawSamples src post modelType cp1 cp2 reportingData 0 samples pos = Some (samples, pos)"
| "drawSamples src post modelType cp1 cp2 reportingData (Suc k) samples pos =
     (case drawSample src post modelType cp1 cp2 reportingData pos of
        None \<Rightarrow> None
      | Some (t, pos1) \<Rightarrow>
          drawSamples src post modelType cp1 cp2 reportingData k (samples @ [t]) pos1)"

text \<open>
  A histogram bin (fields \<^verbatim>\<open>x\<close>, \<^verbatim>\<open>lo\<close>, \<^verbatim>\<open>hi\<close>, \<^verbatim>\<open>count\<close>, \<^verbatim>\<open>density\<close>, here with the
  prefix \<open>bin_\<close>) and the returned object (fields with the prefix \<open>s_\<close>).
\<close>

record bin =
  bin_x :: real
  bin_lo :: real
  bin_hi :: real
  bin_count :: nat
  bin_density :: real

record savings =
  s_samples :: "real list"
  s_mean :: real
  s_median :: real
  s_ci95 :: "real \<times> real"
  s_ci80 :: "real \<times> real"
  s_bins :: "bin list"
  s_maxCount :: nat

text \<open>Lines 528 to 533.\<close>

definition emptyBins :: "real \<Rightarrow> real \<Rightarrow> nat \<Rightarrow> bin list" where
  "emptyBins sMin binWidth binCount =
     map (\<lambda>i. \<lparr> bin_x = sMin + (real i + 0.5) * binWidth,
                 bin_lo = sMin + real i * binWidth,
                 bin_hi = sMin + (real i + 1) * binWidth,
                 bin_count = 0, bin_density = 0 \<rparr>) [0..<binCount]"

text \<open>
  Line 535: \<^verbatim>\<open>Math.min(Math.floor((s - sMin) / binWidth), binCount - 1)\<close>. With a bin width
  of 0 the quotient is \<^verbatim>\<open>Infinity\<close> for a sample above \<open>sMin\<close>, which the minimum brings
  down to the last bin, and \<^verbatim>\<open>NaN\<close> or \<^verbatim>\<open>-Infinity\<close> otherwise, which is no index.
\<close>

definition binIndex :: "real \<Rightarrow> real \<Rightarrow> nat \<Rightarrow> real \<Rightarrow> int option" where
  "binIndex sMin binWidth binCount s =
     (if binWidth = 0 then (if 0 < s - sMin then Some (int binCount - 1) else None)
      else Some (min \<lfloor>(s - sMin) / binWidth\<rfloor> (int binCount - 1)))"

text \<open>
  Lines 534 to 537. \<^verbatim>\<open>bins[idx].count++\<close> raises a TypeError when \<^verbatim>\<open>bins[idx]\<close> is
  \<^verbatim>\<open>undefined\<close>: at an index that is no number, or outside the array.
\<close>

fun fillBins :: "real \<Rightarrow> real \<Rightarrow> nat \<Rightarrow> bin list \<Rightarrow> real list \<Rightarrow> error + bin list" where
  "fillBins sMin binWidth binCount bs [] = Inr bs"
| "fillBins sMin binWidth binCount bs (s # rest) =
     (case binIndex sMin binWidth binCount s of
        None \<Rightarrow> Inl TypeError
      | Some idx \<Rightarrow>
          if idx < 0 \<or> int (length bs) \<le> idx then Inl TypeError
          else fillBins sMin binWidth binCount
                 (bs[nat idx := (bs ! nat idx)\<lparr> bin_count := bin_count (bs ! nat idx) + 1 \<rparr>])
                 rest)"

text \<open>
  Lines 517 to 541, on the \<open>nSamples \<ge> 1\<close> totals drawn. (With no sample at all the source
  returns an object whose numbers are \<^verbatim>\<open>NaN\<close> or \<^verbatim>\<open>undefined\<close>; the reads \<open>samples ! 0\<close>
  of an empty list stand for them.)
\<close>

definition summarize :: "real list \<Rightarrow> nat \<Rightarrow> error + savings" where
  "summarize raw nSamples =
     (let samples = sort raw;
          mean = reduce_idx (\<lambda>a b _. a + b) 0 samples / real nSamples;
          ci95 = (samples ! nat \<lfloor>real nSamples * 0.025\<rfloor>, samples ! nat \<lfloor>real nSamples * 0.975\<rfloor>);
          ci80 = (samples ! nat \<lfloor>real nSamples * 0.10\<rfloor>, samples ! nat \<lfloor>real nSamples * 0.90\<rfloor>);
          median = samples ! nat \<lfloor>real nSamples * 0.5\<rfloor>;
          binCount = 50;
          sMin = samples ! 0;
          sMax = samples ! (nSamples - 1);
          binWidth = (sMax - sMin) / real binCount
      in case fillBins sMin binWidth binCount (emptyBins sMin binWidth binCount) samples of
           Inl e \<Rightarrow> Inl e
         | Inr counted \<Rightarrow>
             (let maxCount = Max (set (map bin_count counted));
                  bs = map (\<lambda>b. b\<lparr> bin_density := real (bin_count b) / (real nSamples * binWidth) \<rparr>)
                         counted
              in Inr \<lparr> s_samples = samples, s_mean = mean, s_median = median,
                         s_ci95 = ci95, s_ci80 = ci80, s_bins = bs, s_maxCount = maxCount \<rparr>))"

text \<open>
  \<^verbatim>\<open>savingsPosterior(post, modelType, cp1, cp2, reportingData, nSamples = 5000)\<close>, with
  the random source and its position in front. The result is \<open>None\<close> when the sampler
  does not return, otherwise the summary or the exception, and the new position.
\<close>

definition savingsPosterior ::
  "rng \<Rightarrow> nat \<Rightarrow> posterior \<Rightarrow> string \<Rightarrow> real option \<Rightarrow> real option \<Rightarrow> observation list
     \<Rightarrow> nat option \<Rightarrow> ((error + savings) \<times> nat) option" where
  "savingsPosterior src pos post modelType cp1 cp2 reportingData nSamplesArg =
     (let nSamples = (case nSamplesArg of None \<Rightarrow> 5000 | Some k \<Rightarrow> k)
      in case drawSamples src post modelType cp1 cp2 reportingData nSamples [] pos of
           None \<Rightarrow> None
         | Some (raw, pos1) \<Rightarrow> Some (summarize raw nSamples, pos1))"

section \<open>Predicates used in the statements and proofs\<close>

text \<open>An \<open>n \<times> n\<close> matrix.\<close>

definition square :: "nat \<Rightarrow> mat \<Rightarrow> bool" where
  "square n M \<longleftrightarrow> length M = n \<and> (\<forall>r<n. length (M ! r) = n)"

text \<open>
  The invariants of the elimination. A row \<open>[a | b]\<close> of the augmented matrix satisfies
  \<open>b M = a\<close>; after \<open>k\<close> columns, the first \<open>k\<close> columns are those of the identity.
\<close>

definition row_ok :: "mat \<Rightarrow> nat \<Rightarrow> real list \<Rightarrow> bool" where
  "row_ok M n v \<longleftrightarrow> length v = 2 * n \<and> (\<forall>j<n. (\<Sum>i<n. v ! (n + i) * M ! i ! j) = v ! j)"

definition gj_inv :: "mat \<Rightarrow> nat \<Rightarrow> nat \<Rightarrow> mat \<Rightarrow> bool" where
  "gj_inv M n k aug \<longleftrightarrow>
     length aug = n \<and> (\<forall>r<n. row_ok M n (aug ! r)) \<and>
     (\<forall>r<n. \<forall>c<k. aug ! r ! c = (if r = c then 1 else 0))"

text \<open>
  The second invariant: whatever \<open>x\<close> and \<open>b\<close> solve every row \<open>[a | b']\<close> of the augmented
  matrix, read as the equation \<open>a x = b' b\<close>, solve \<open>M x = b\<close>.
\<close>

definition row_sat :: "nat \<Rightarrow> (nat \<Rightarrow> real) \<Rightarrow> (nat \<Rightarrow> real) \<Rightarrow> real list \<Rightarrow> bool" where
  "row_sat n x b v \<longleftrightarrow> (\<Sum>c<n. v ! c * x c) = (\<Sum>i<n. v ! (n + i) * b i)"

definition gj_sol :: "mat \<Rightarrow> nat \<Rightarrow> mat \<Rightarrow> bool" where
  "gj_sol M n aug \<longleftrightarrow>
     (\<forall>x b. (\<forall>r<n. row_sat n x b (aug ! r)) \<longrightarrow> (\<forall>r<n. (\<Sum>c<n. M ! r ! c * x c) = b r))"

text \<open>
  The shapes the documentation of \<^verbatim>\<open>bayesianRegression\<close> gives its arguments: \<open>X\<close> has
  at least one row, every row has \<open>p > 0\<close> entries, \<open>y\<close> has one entry per row, \<open>mu0\<close> has
  \<open>p\<close> entries and \<open>Lambda0\<close> is \<open>p \<times> p\<close>.
\<close>

definition regression_shapes :: "mat \<Rightarrow> vec \<Rightarrow> vec \<Rightarrow> mat \<Rightarrow> nat \<Rightarrow> bool" where
  "regression_shapes X y mu0 Lambda0 p \<longleftrightarrow>
     X \<noteq> [] \<and> 0 < p \<and> (\<forall>r<length X. length (X ! r) = p) \<and> length y = length X
     \<and> length mu0 = p \<and> square p Lambda0"

text \<open>
  The shapes under which the regression reads only entries that exist: as above, with
  \<open>y\<close> no longer than \<open>X\<close> has rows.
\<close>

definition design_shapes :: "mat \<Rightarrow> vec \<Rightarrow> vec \<Rightarrow> mat \<Rightarrow> nat \<Rightarrow> bool" where
  "design_shapes X y mu0 Lambda0 p \<longleftrightarrow>
     X \<noteq> [] \<and> 0 < p \<and> (\<forall>r<length X. length (X ! r) = p) \<and> length y \<le> length X
     \<and> length mu0 = p \<and> square p Lambda0"

text \<open>
  The quadratic form \<open>v\<^sup>T A v\<close> over the first \<open>p\<close> indices, and a symmetric positive
  definite \<open>p \<times> p\<close> matrix, which is what a prior precision is.
\<close>

definition qform :: "nat \<Rightarrow> (nat \<Rightarrow> nat \<Rightarrow> real) \<Rightarrow> (nat \<Rightarrow> real) \<Rightarrow> real" where
  "qform p A v = (\<Sum>r<p. \<Sum>c<p. v r * A r c * v c)"

definition spd :: "nat \<Rightarrow> mat \<Rightarrow> bool" where
  "spd p L \<longleftrightarrow>
     square p L \<and> (\<forall>r<p. \<forall>c<p. L ! r ! c = L ! c ! r)
     \<and> (\<forall>v. (\<exists>r<p. v r \<noteq> 0) \<longrightarrow> 0 < qform p (\<lambda>r c. L ! r ! c) v)"

text \<open>
  The entries of \<open>Lambda0 + X\<^sup>T X\<close> over the first \<open>n\<close> rows of \<open>X\<close>, the right-hand side
  \<open>Lambda0 mu0 + X\<^sup>T y\<close> of the normal equations, and the penalised sum of squares
  \<open>|y - X b|\<^sup>2 + (b - mu0)\<^sup>T Lambda0 (b - mu0)\<close> that the posterior mean minimises.
\<close>

definition precision :: "mat \<Rightarrow> mat \<Rightarrow> nat \<Rightarrow> nat \<Rightarrow> nat \<Rightarrow> real" where
  "precision L X n r c = L ! r ! c + (\<Sum>i<n. X ! i ! r * X ! i ! c)"

definition normal_rhs :: "mat \<Rightarrow> mat \<Rightarrow> vec \<Rightarrow> vec \<Rightarrow> nat \<Rightarrow> nat \<Rightarrow> real" where
  "normal_rhs L X y mu0 p r = (\<Sum>c<p. L ! r ! c * mu0 ! c) + (\<Sum>i<length y. X ! i ! r * y ! i)"

definition penalised :: "mat \<Rightarrow> mat \<Rightarrow> vec \<Rightarrow> vec \<Rightarrow> nat \<Rightarrow> (nat \<Rightarrow> real) \<Rightarrow> real" where
  "penalised L X y mu0 p b =
     (\<Sum>i<length y. (y ! i - (\<Sum>r<p. X ! i ! r * b r))\<^sup>2)
       + qform p (\<lambda>r c. L ! r ! c) (\<lambda>r. b r - mu0 ! r)"

text \<open>The marginal variance factor of a result of \<open>bayesianRegression\<close>, when it is a posterior.\<close>

definition result_variance :: "error + posterior option \<Rightarrow> nat \<Rightarrow> real option" where
  "result_variance r j = (case r of Inr (Some post) \<Rightarrow> Some (marginalVariance post j) | _ \<Rightarrow> None)"

text \<open>
  The locations the scan visits, in its order, and the candidates it keeps at a list of
  locations.
\<close>

definition searchGrid :: "real list \<Rightarrow> string \<Rightarrow> real \<Rightarrow> (real \<times> real option) list" where
  "searchGrid temps modelType cpStep =
     (if temps = [] then []
      else if modelType = ''3PH'' \<or> modelType = ''3PC''
      then map (\<lambda>cp. (cp, None)) (grid (Min (set temps) + 3) (Max (set temps) - 3) cpStep)
      else if modelType = ''5P''
      then concat (map (\<lambda>cph. map (\<lambda>cpc. (cph, Some cpc)) (grid (cph + 6) (Max (set temps) - 4) 1))
                    (grid (Min (set temps) + 4) (Max (set temps) - 10) 1))
      else [])"

definition fitsAt ::
  "real list \<Rightarrow> vec \<Rightarrow> string \<Rightarrow> priors \<Rightarrow> (real \<times> real option) list \<Rightarrow> raw_candidate list" where
  "fitsAt temps y modelType pri locs =
     concat (map (\<lambda>(cp, cp2). case candidateFit temps y modelType pri cp cp2 of
                                  Inr (Some post) \<Rightarrow>
                                    [\<lparr> c_cp = cp, c_cp2 = cp2, c_logML = logML post, c_post = post \<rparr>]
                                | _ \<Rightarrow> []) locs)"


text \<open>Sliders for the examples: prior means 0, shape and scale 1, the given strength.\<close>

definition example_priors :: "real \<Rightarrow> priors" where
  "example_priors s = \<lparr> baseload = 0, slope = 0, slope2 = None, strength = s, noiseA = 1, noiseB = 1 \<rparr>"

text \<open>The abscissa of point \<open>i\<close> of the 200-point density curve of coefficient \<open>j\<close>.\<close>

definition curve_point :: "posterior \<Rightarrow> nat \<Rightarrow> nat \<Rightarrow> real" where
  "curve_point post j i =
     muN post ! j - 4 * sqrt (marginalVariance post j)
       + (2 * (4 * sqrt (marginalVariance post j)) * real i) / 199"

text \<open>A posterior with one coefficient, for the examples.\<close>

definition example_posterior :: posterior where
  "example_posterior =
     \<lparr> muN = [0], LambdaN = [[1]], LambdaN_inv = [[1]], aN = 1, bN = 1, logML = 0,
       n_obs = 0, p_par = 1, betaOLS = [0], R2 = 0, cvRMSE_OLS = 0 \<rparr>"

text \<open>The names of the fields of a returned object, and the value of one field.\<close>

definition fields_of :: "error + (string \<times> jsval) list \<Rightarrow> string list" where
  "fields_of r = (case r of Inr obj \<Rightarrow> map fst obj | Inl _ \<Rightarrow> [])"

definition field_of :: "error + (string \<times> jsval) list \<Rightarrow> string \<Rightarrow> jsval option" where
  "field_of r k = (case r of Inr obj \<Rightarrow> map_of obj k | Inl _ \<Rightarrow> None)"

text \<open>
  Random sources and a posterior for the examples: the constant sequence 1/4, which makes
  every normal draw 0, and a sequence whose draws 10 and 11 make one normal draw \<open>-1\<close>.
\<close>

definition quarter_rng :: rng where
  "quarter_rng = (\<lambda>_. 1 / 4)"

definition two_rng :: rng where
  "two_rng = (\<lambda>pos. if pos = 10 then exp (- 1 / 2) else if pos = 11 then 1 / 2 else 1 / 4)"

definition sampler_posterior :: posterior where
  "sampler_posterior =
     \<lparr> muN = [100, 5], LambdaN = [[1, 0], [0, 1]], LambdaN_inv = [[1, 0], [0, 1]],
       aN = 4 / 3, bN = 1, logML = 0, n_obs = 2, p_par = 2, betaOLS = [100, 5],
       R2 = 1, cvRMSE_OLS = 0 \<rparr>"

section \<open>The kernel: indexed folds and the correctness of inversion\<close>

lemma length_map_idx [simp]: "length (map_idx f xs) = length xs"
  by (simp add: map_idx_def)

lemma nth_map_idx [simp]: "i < length xs \<Longrightarrow> map_idx f xs ! i = f (xs ! i) i"
  by (simp add: map_idx_def)

lemma foldl_add_upt: "foldl (\<lambda>s l. s + g l) z [0..<k] = (z::real) + (\<Sum>l<k. g l)"
  by (induction k) simp_all

lemma reduce_idx_add: "reduce_idx (\<lambda>s a j. s + g a j) z xs = (z::real) + (\<Sum>j<length xs. g (xs ! j) j)"
proof (induction xs rule: rev_induct)
  case Nil
  then show ?case by (simp add: reduce_idx_def)
next
  case (snoc x xs)
  have "zip (xs @ [x]) [0..<length (xs @ [x])] = zip xs [0..<length xs] @ [(x, length xs)]"
    by simp
  then have "reduce_idx (\<lambda>s a j. s + g a j) z (xs @ [x])
      = reduce_idx (\<lambda>s a j. s + g a j) z xs + g x (length xs)"
    by (simp add: reduce_idx_def)
  also have "\<dots> = z + (\<Sum>j<length xs. g (xs ! j) j) + g x (length xs)"
    by (simp add: snoc.IH)
  also have "(\<Sum>j<length xs. g (xs ! j) j) = (\<Sum>j<length xs. g ((xs @ [x]) ! j) j)"
    by (rule sum.cong) (simp_all add: nth_append)
  finally show ?case by (simp add: nth_append)
qed

lemma findMaxRow_fold_mem:
  "foldl (\<lambda>m r. if P r m then r else m) c xs \<in> insert c (set xs)"
  by (induction xs arbitrary: c) auto

lemma findMaxRow_bounds:
  assumes "col < n"
  shows "col \<le> findMaxRow aug n col \<and> findMaxRow aug n col < n"
proof -
  have "findMaxRow aug n col \<in> insert col (set [col + 1..<n])"
    unfolding findMaxRow_def
    by (rule findMaxRow_fold_mem [where P = "\<lambda>r m. \<bar>aug ! r ! col\<bar> > \<bar>aug ! m ! col\<bar>"])
  with assms show ?thesis by auto
qed

lemma row_ok_scale:
  assumes "row_ok M n v"
  shows "row_ok M n (map (\<lambda>x. x / c) v)"
proof -
  from assms have len: "length v = 2 * n"
    and eq: "\<And>j. j < n \<Longrightarrow> (\<Sum>i<n. v ! (n + i) * M ! i ! j) = v ! j"
    by (simp_all add: row_ok_def)
  have "(\<Sum>i<n. map (\<lambda>x. x / c) v ! (n + i) * M ! i ! j) = map (\<lambda>x. x / c) v ! j" if "j < n" for j
  proof -
    have "(\<Sum>i<n. map (\<lambda>x. x / c) v ! (n + i) * M ! i ! j) = (\<Sum>i<n. (v ! (n + i) * M ! i ! j) / c)"
      by (rule sum.cong) (simp_all add: len)
    also have "\<dots> = (\<Sum>i<n. v ! (n + i) * M ! i ! j) / c"
      by (simp add: sum_divide_distrib)
    finally show ?thesis using that by (simp add: eq len)
  qed
  then show ?thesis by (simp add: row_ok_def len)
qed

lemma row_ok_sub:
  assumes "row_ok M n v" and "row_ok M n w"
  shows "row_ok M n (map2 (\<lambda>a c. a - f * c) v w)"
proof -
  from assms have lv: "length v = 2 * n" and lw: "length w = 2 * n"
    and ev: "\<And>j. j < n \<Longrightarrow> (\<Sum>i<n. v ! (n + i) * M ! i ! j) = v ! j"
    and ew: "\<And>j. j < n \<Longrightarrow> (\<Sum>i<n. w ! (n + i) * M ! i ! j) = w ! j"
    by (simp_all add: row_ok_def)
  have "(\<Sum>i<n. map2 (\<lambda>a c. a - f * c) v w ! (n + i) * M ! i ! j) = map2 (\<lambda>a c. a - f * c) v w ! j"
    if "j < n" for j
  proof -
    have "(\<Sum>i<n. map2 (\<lambda>a c. a - f * c) v w ! (n + i) * M ! i ! j)
        = (\<Sum>i<n. v ! (n + i) * M ! i ! j - f * (w ! (n + i) * M ! i ! j))"
      by (rule sum.cong) (simp_all add: lv lw algebra_simps)
    also have "\<dots> = (\<Sum>i<n. v ! (n + i) * M ! i ! j) - f * (\<Sum>i<n. w ! (n + i) * M ! i ! j)"
      by (simp add: sum_subtractf sum_distrib_left)
    finally show ?thesis using that by (simp add: ev ew lv lw)
  qed
  then show ?thesis by (simp add: row_ok_def lv lw)
qed

lemma gj_inv_augment:
  assumes "square n M"
  shows "gj_inv M n 0 (augment M)"
proof -
  from assms have len: "length M = n" and rows: "\<And>r. r < n \<Longrightarrow> length (M ! r) = n"
    by (simp_all add: square_def)
  have "row_ok M n (augment M ! r)" if "r < n" for r
  proof -
    have row: "augment M ! r = M ! r @ map (\<lambda>j. if r = j then 1 else 0) [0..<n]"
      using that by (simp add: augment_def len)
    have "(\<Sum>i<n. (augment M ! r) ! (n + i) * M ! i ! j) = (augment M ! r) ! j" if "j < n" for j
    proof -
      have "(\<Sum>i<n. (augment M ! r) ! (n + i) * M ! i ! j) = (\<Sum>i<n. (if r = i then M ! i ! j else 0))"
        by (rule sum.cong) (simp_all add: row nth_append rows \<open>r < n\<close>)
      also have "\<dots> = M ! r ! j"
        using \<open>r < n\<close> by simp
      finally show ?thesis using \<open>j < n\<close> \<open>r < n\<close> by (simp add: row nth_append rows)
    qed
    then show ?thesis using that by (simp add: row_ok_def row rows)
  qed
  then show ?thesis by (simp add: gj_inv_def augment_def len)
qed

lemma swapRows_nth:
  assumes "i < length aug" and "j < length aug" and "r < length aug"
  shows "swapRows aug i j ! r = (if r = j then aug ! i else if r = i then aug ! j else aug ! r)"
  using assms by (simp add: swapRows_def nth_list_update)

lemma gj_inv_swap:
  assumes inv: "gj_inv M n k aug" and "k \<le> m" and "m < n"
  shows "gj_inv M n k (swapRows aug k m)"
proof -
  from inv have len: "length aug = n"
    and ok: "\<And>r. r < n \<Longrightarrow> row_ok M n (aug ! r)"
    and unit: "\<And>r c. r < n \<Longrightarrow> c < k \<Longrightarrow> aug ! r ! c = (if r = c then 1 else 0)"
    by (simp_all add: gj_inv_def)
  have kn: "k < n" using assms by simp
  have nth: "swapRows aug k m ! r = (if r = m then aug ! k else if r = k then aug ! m else aug ! r)"
    if "r < n" for r
    using that kn \<open>m < n\<close> by (simp add: swapRows_nth len)
  have "row_ok M n (swapRows aug k m ! r)" if "r < n" for r
    using that kn \<open>m < n\<close> by (simp add: nth ok)
  moreover have "swapRows aug k m ! r ! c = (if r = c then 1 else 0)" if "r < n" "c < k" for r c
    using that kn \<open>m < n\<close> \<open>k \<le> m\<close> by (auto simp add: nth unit)
  moreover have "length (swapRows aug k m) = n"
    by (simp add: swapRows_def len)
  ultimately show ?thesis by (simp add: gj_inv_def)
qed

lemma gj_inv_step:
  assumes inv: "gj_inv M n k aug" and kn: "k < n" and step: "invertStep n aug k = Some aug'"
  shows "gj_inv M n (Suc k) aug'"
proof -
  define m where "m = findMaxRow aug n k"
  define aug1 where "aug1 = swapRows aug k m"
  define pivot where "pivot = aug1 ! k ! k"
  define prow where "prow = map (\<lambda>v. v / pivot) (aug1 ! k)"
  define aug2 where "aug2 = aug1[k := prow]"
  have m: "k \<le> m" "m < n"
    using findMaxRow_bounds [OF kn, of aug] by (simp_all add: m_def)
  from step have big: "\<not> \<bar>pivot\<bar> < pivot_tol" and res: "aug' = eliminate aug2 k"
    by (auto simp add: invertStep_def Let_def m_def aug1_def pivot_def aug2_def prow_def
        split: if_splits)
  have pivot: "pivot \<noteq> 0"
    using big by (auto simp add: pivot_tol_def)
  have inv1: "gj_inv M n k aug1"
    unfolding aug1_def using inv m by (rule gj_inv_swap)
  then have len1: "length aug1 = n"
    and ok1: "\<And>r. r < n \<Longrightarrow> row_ok M n (aug1 ! r)"
    and unit1: "\<And>r c. r < n \<Longrightarrow> c < k \<Longrightarrow> aug1 ! r ! c = (if r = c then 1 else 0)"
    by (simp_all add: gj_inv_def)
  have lrow1: "length (aug1 ! r) = 2 * n" if "r < n" for r
    using ok1 [OF that] by (simp add: row_ok_def)
  have prow_ok: "row_ok M n prow"
    unfolding prow_def using ok1 [OF kn] by (rule row_ok_scale)
  have lprow: "length prow = 2 * n"
    using prow_ok by (simp add: row_ok_def)
  have prow_lt: "prow ! c = 0" if "c < k" for c
    using that kn unit1 [of k c] by (simp add: prow_def lrow1)
  have prow_k: "prow ! k = 1"
    using kn pivot by (simp add: prow_def lrow1 pivot_def)
  have len2: "length aug2 = n"
    by (simp add: aug2_def len1)
  have nth2: "aug2 ! r = (if r = k then prow else aug1 ! r)" if "r < n" for r
    using that by (simp add: aug2_def len1 nth_list_update)
  have nth': "aug' ! r = (if r = k then prow
       else map2 (\<lambda>a c. a - aug1 ! r ! k * c) (aug1 ! r) prow)" if "r < n" for r
    using that kn by (simp add: res eliminate_def len2 nth2 Let_def)
  have "row_ok M n (aug' ! r)" if "r < n" for r
    using that by (simp add: nth' prow_ok row_ok_sub ok1)
  moreover have "aug' ! r ! c = (if r = c then 1 else 0)" if "r < n" "c < Suc k" for r c
  proof (cases "r = k")
    case True
    then show ?thesis using that prow_lt [of c] prow_k
      by (cases "c = k") (simp_all add: nth')
  next
    case False
    have c2: "c < 2 * n" using that kn by simp
    have "aug' ! r ! c = aug1 ! r ! c - aug1 ! r ! k * prow ! c"
      using that False c2 by (simp add: nth' lrow1 lprow)
    also have "\<dots> = (if r = c then 1 else 0)"
    proof (cases "c = k")
      case True
      then show ?thesis using False prow_k by simp
    next
      case False
      then have "c < k" using that by simp
      then show ?thesis using prow_lt [of c] unit1 [of r c] that by simp
    qed
    finally show ?thesis .
  qed
  moreover have "length aug' = n"
    by (simp add: res eliminate_def len2)
  ultimately show ?thesis by (simp add: gj_inv_def)
qed

lemma gj_inv_loop:
  assumes "gj_inv M n k aug" and "k \<le> n" and "invertLoop n aug [k..<n] = Some aug'"
  shows "gj_inv M n n aug'"
  using assms
proof (induction "n - k" arbitrary: k aug)
  case 0
  then show ?case by simp
next
  case (Suc d)
  then have kn: "k < n" by simp
  then have upt: "[k..<n] = k # [Suc k..<n]" by (simp add: upt_conv_Cons)
  from Suc.prems(3) obtain aug1 where
    step: "invertStep n aug k = Some aug1" and rest: "invertLoop n aug1 [Suc k..<n] = Some aug'"
    by (auto simp add: upt split: option.splits)
  have "gj_inv M n (Suc k) aug1"
    using Suc.prems(1) kn step by (rule gj_inv_step)
  moreover have "d = n - Suc k" using Suc.hyps(2) by simp
  ultimately show ?case using Suc.hyps(1) kn rest by simp
qed

text \<open>The entries of a product.\<close>

lemma matMul_nth:
  assumes "B \<noteq> []" and "i < length A" and "j < length (B ! 0)"
  shows "\<exists>C. matMul A B = Inr C \<and> length C = length A \<and> length (C ! i) = length (B ! 0)
     \<and> C ! i ! j = (\<Sum>l<length B. A ! i ! l * B ! l ! j)"
proof -
  from assms(1) obtain b0 bs where B: "B = b0 # bs" by (cases B) auto
  show ?thesis using assms(2,3)
    by (simp add: matMul_def B foldl_add_upt del: upt_Suc)
qed

lemma matInvert_left_inverse_entries:
  assumes sq: "square n M" and inv: "matInvert M = Some B"
  shows "length B = n \<and> (\<forall>r<n. length (B ! r) = n) \<and>
     (\<forall>r<n. \<forall>j<n. (\<Sum>i<n. B ! r ! i * M ! i ! j) = (if r = j then 1 else 0))"
proof -
  from sq have len: "length M = n" by (simp add: square_def)
  from inv obtain aug' where loop: "invertLoop n (augment M) [0..<n] = Some aug'"
    and B: "B = map (drop n) aug'"
    by (auto simp add: matInvert_def len)
  have "gj_inv M n n aug'"
    using gj_inv_augment [OF sq] _ loop by (rule gj_inv_loop) simp
  then have la: "length aug' = n"
    and ok: "\<And>r. r < n \<Longrightarrow> row_ok M n (aug' ! r)"
    and unit: "\<And>r c. r < n \<Longrightarrow> c < n \<Longrightarrow> aug' ! r ! c = (if r = c then 1 else 0)"
    by (simp_all add: gj_inv_def)
  have "(\<Sum>i<n. B ! r ! i * M ! i ! j) = (if r = j then 1 else 0)" if "r < n" "j < n" for r j
  proof -
    have l: "length (aug' ! r) = 2 * n" using ok [OF that(1)] by (simp add: row_ok_def)
    have "(\<Sum>i<n. B ! r ! i * M ! i ! j) = (\<Sum>i<n. aug' ! r ! (n + i) * M ! i ! j)"
      by (rule sum.cong) (simp_all add: B la that l)
    also have "\<dots> = aug' ! r ! j"
      using ok [OF that(1)] that(2) by (simp add: row_ok_def)
    finally show ?thesis using unit [OF that] by simp
  qed
  moreover have "length (B ! r) = n" if "r < n" for r
    using ok [OF that] that by (simp add: B la row_ok_def)
  ultimately show ?thesis by (simp add: B la)
qed

lemma row_sat_scale:
  assumes "row_sat n x b (map (\<lambda>v. v / c) v)" and "c \<noteq> 0" and "length v = 2 * n"
  shows "row_sat n x b v"
proof -
  have "(\<Sum>j<n. map (\<lambda>v. v / c) v ! j * x j) = (\<Sum>j<n. (v ! j * x j) / c)"
    by (rule sum.cong) (simp_all add: assms(3))
  moreover have "(\<Sum>i<n. map (\<lambda>v. v / c) v ! (n + i) * b i) = (\<Sum>i<n. (v ! (n + i) * b i) / c)"
    by (rule sum.cong) (simp_all add: assms(3))
  ultimately have "(\<Sum>j<n. v ! j * x j) / c = (\<Sum>i<n. v ! (n + i) * b i) / c"
    using assms(1) by (simp add: row_sat_def sum_divide_distrib)
  then show ?thesis using assms(2) by (simp add: row_sat_def)
qed

lemma row_sat_sub:
  assumes "row_sat n x b (map2 (\<lambda>a c. a - f * c) v w)" and "row_sat n x b w"
    and "length v = 2 * n" and "length w = 2 * n"
  shows "row_sat n x b v"
proof -
  have "(\<Sum>j<n. map2 (\<lambda>a c. a - f * c) v w ! j * x j) = (\<Sum>j<n. v ! j * x j - f * (w ! j * x j))"
    by (rule sum.cong) (simp_all add: assms(3,4) algebra_simps)
  moreover have "(\<Sum>i<n. map2 (\<lambda>a c. a - f * c) v w ! (n + i) * b i)
      = (\<Sum>i<n. v ! (n + i) * b i - f * (w ! (n + i) * b i))"
    by (rule sum.cong) (simp_all add: assms(3,4) algebra_simps)
  ultimately have "(\<Sum>j<n. v ! j * x j) - f * (\<Sum>j<n. w ! j * x j)
      = (\<Sum>i<n. v ! (n + i) * b i) - f * (\<Sum>i<n. w ! (n + i) * b i)"
    using assms(1) by (simp add: row_sat_def sum_subtractf sum_distrib_left)
  then show ?thesis using assms(2) by (simp add: row_sat_def)
qed

lemma gj_sol_augment:
  assumes "square n M"
  shows "gj_sol M n (augment M)"
proof -
  from assms have len: "length M = n" and rows: "\<And>r. r < n \<Longrightarrow> length (M ! r) = n"
    by (simp_all add: square_def)
  have "(\<Sum>c<n. M ! r ! c * x c) = b r"
    if sat: "row_sat n x b (augment M ! r)" and r: "r < n" for x b r
  proof -
    have row: "augment M ! r = M ! r @ map (\<lambda>j. if r = j then 1 else 0) [0..<n]"
      using r by (simp add: augment_def len)
    have "(\<Sum>c<n. (augment M ! r) ! c * x c) = (\<Sum>c<n. M ! r ! c * x c)"
      by (rule sum.cong) (simp_all add: row nth_append rows r)
    moreover have "(\<Sum>i<n. (augment M ! r) ! (n + i) * b i) = (\<Sum>i<n. (if r = i then b i else 0))"
      by (rule sum.cong) (simp_all add: row nth_append rows r)
    moreover have "(\<Sum>i<n. (if r = i then b i else 0)) = b r"
      using r by simp
    ultimately show ?thesis using sat by (simp add: row_sat_def)
  qed
  then show ?thesis by (simp add: gj_sol_def)
qed

lemma gj_sol_step:
  assumes inv: "gj_inv M n k aug" and sol: "gj_sol M n aug" and kn: "k < n"
    and step: "invertStep n aug k = Some aug'"
  shows "gj_sol M n aug'"
proof -
  define m where "m = findMaxRow aug n k"
  define aug1 where "aug1 = swapRows aug k m"
  define pivot where "pivot = aug1 ! k ! k"
  define prow where "prow = map (\<lambda>v. v / pivot) (aug1 ! k)"
  define aug2 where "aug2 = aug1[k := prow]"
  have m: "k \<le> m" "m < n"
    using findMaxRow_bounds [OF kn, of aug] by (simp_all add: m_def)
  from step have big: "\<not> \<bar>pivot\<bar> < pivot_tol" and res: "aug' = eliminate aug2 k"
    by (auto simp add: invertStep_def Let_def m_def aug1_def pivot_def aug2_def prow_def
        split: if_splits)
  have pivot: "pivot \<noteq> 0"
    using big by (auto simp add: pivot_tol_def)
  from inv have len: "length aug = n" by (simp add: gj_inv_def)
  have inv1: "gj_inv M n k aug1"
    unfolding aug1_def using inv m by (rule gj_inv_swap)
  then have len1: "length aug1 = n"
    and ok1: "\<And>r. r < n \<Longrightarrow> row_ok M n (aug1 ! r)"
    by (simp_all add: gj_inv_def)
  have lrow1: "length (aug1 ! r) = 2 * n" if "r < n" for r
    using ok1 [OF that] by (simp add: row_ok_def)
  have lprow: "length prow = 2 * n"
    using kn by (simp add: prow_def lrow1)
  have len2: "length aug2 = n"
    by (simp add: aug2_def len1)
  have nth2: "aug2 ! r = (if r = k then prow else aug1 ! r)" if "r < n" for r
    using that by (simp add: aug2_def len1 nth_list_update)
  have nth': "aug' ! r = (if r = k then prow
       else map2 (\<lambda>a c. a - aug1 ! r ! k * c) (aug1 ! r) prow)" if "r < n" for r
    using that kn by (simp add: res eliminate_def len2 nth2 Let_def)
  have nth1: "aug1 ! r = (if r = m then aug ! k else if r = k then aug ! m else aug ! r)"
    if "r < n" for r
    using that kn m by (simp add: aug1_def swapRows_nth len)
  have "(\<Sum>c<n. M ! r ! c * x c) = b r"
    if sat: "\<And>r. r < n \<Longrightarrow> row_sat n x b (aug' ! r)" and r: "r < n" for x b r
  proof -
    have satp: "row_sat n x b prow"
      using sat [OF kn] kn by (simp add: nth')
    have sat1: "row_sat n x b (aug1 ! q)" if q: "q < n" for q
    proof (cases "q = k")
      case True
      show ?thesis unfolding True
        using satp pivot lrow1 [OF kn] unfolding prow_def by (rule row_sat_scale)
    next
      case False
      have "row_sat n x b (map2 (\<lambda>a c. a - aug1 ! q ! k * c) (aug1 ! q) prow)"
        using sat [OF q] q False by (simp add: nth')
      then show ?thesis using satp lrow1 [OF q] lprow by (rule row_sat_sub)
    qed
    have "row_sat n x b (aug ! q)" if q: "q < n" for q
    proof -
      have "aug ! q = aug1 ! (if q = m then k else if q = k then m else q)"
        using q kn m by (auto simp add: nth1)
      moreover have "(if q = m then k else if q = k then m else q) < n"
        using q kn m by simp
      ultimately show ?thesis using sat1 by metis
    qed
    with sol r show ?thesis by (simp add: gj_sol_def)
  qed
  then show ?thesis by (simp add: gj_sol_def)
qed

lemma gj_sol_loop:
  assumes "gj_inv M n k aug" and "gj_sol M n aug" and "k \<le> n"
    and "invertLoop n aug [k..<n] = Some aug'"
  shows "gj_sol M n aug'"
  using assms
proof (induction "n - k" arbitrary: k aug)
  case 0
  then show ?case by simp
next
  case (Suc d)
  then have kn: "k < n" by simp
  then have upt: "[k..<n] = k # [Suc k..<n]" by (simp add: upt_conv_Cons)
  from Suc.prems(4) obtain aug1 where
    step: "invertStep n aug k = Some aug1" and rest: "invertLoop n aug1 [Suc k..<n] = Some aug'"
    by (auto simp add: upt split: option.splits)
  have "gj_inv M n (Suc k) aug1"
    using Suc.prems(1) kn step by (rule gj_inv_step)
  moreover have "gj_sol M n aug1"
    using Suc.prems(1,2) kn step by (rule gj_sol_step)
  moreover have "d = n - Suc k" using Suc.hyps(2) by simp
  ultimately show ?case using Suc.hyps(1) kn rest by simp
qed

lemma matInvert_right_inverse_entries:
  assumes sq: "square n M" and inv: "matInvert M = Some B"
  shows "\<forall>r<n. \<forall>j<n. (\<Sum>i<n. M ! r ! i * B ! i ! j) = (if r = j then 1 else 0)"
proof -
  from sq have len: "length M = n" by (simp add: square_def)
  from inv obtain aug' where loop: "invertLoop n (augment M) [0..<n] = Some aug'"
    and B: "B = map (drop n) aug'"
    by (auto simp add: matInvert_def len)
  have ginv: "gj_inv M n n aug'"
    using gj_inv_augment [OF sq] _ loop by (rule gj_inv_loop) simp
  have gsol: "gj_sol M n aug'"
    using gj_inv_augment [OF sq] gj_sol_augment [OF sq] _ loop by (rule gj_sol_loop) simp
  from ginv have la: "length aug' = n"
    and ok: "\<And>r. r < n \<Longrightarrow> row_ok M n (aug' ! r)"
    and unit: "\<And>r c. r < n \<Longrightarrow> c < n \<Longrightarrow> aug' ! r ! c = (if r = c then 1 else 0)"
    by (simp_all add: gj_inv_def)
  have Bnth: "B ! i ! j = aug' ! i ! (n + j)" if "i < n" "j < n" for i j
  proof -
    have "length (aug' ! i) = 2 * n" using ok [OF that(1)] by (simp add: row_ok_def)
    then show ?thesis using that by (simp add: B la)
  qed
  have "(\<Sum>i<n. M ! r ! i * B ! i ! j) = (if r = j then 1 else 0)" if r: "r < n" and j: "j < n" for r j
  proof -
    define b :: "nat \<Rightarrow> real" where "b = (\<lambda>i. if i = j then 1 else 0)"
    define x :: "nat \<Rightarrow> real" where "x = (\<lambda>c. B ! c ! j)"
    have "row_sat n x b (aug' ! q)" if q: "q < n" for q
    proof -
      have "(\<Sum>c<n. aug' ! q ! c * x c) = (\<Sum>c<n. (if q = c then x c else 0))"
        by (rule sum.cong) (simp_all add: unit q)
      also have "\<dots> = x q" using q by simp
      finally have lhs: "(\<Sum>c<n. aug' ! q ! c * x c) = x q" .
      have "(\<Sum>i<n. aug' ! q ! (n + i) * b i) = (\<Sum>i<n. (if i = j then aug' ! q ! (n + i) else 0))"
        by (rule sum.cong) (simp_all add: b_def)
      also have "\<dots> = aug' ! q ! (n + j)" using j by simp
      finally show ?thesis using lhs q j by (simp add: row_sat_def x_def Bnth)
    qed
    with gsol r have "(\<Sum>c<n. M ! r ! c * x c) = b r"
      by (simp add: gj_sol_def)
    then show ?thesis by (auto simp add: x_def b_def)
  qed
  then show ?thesis by simp
qed

section \<open>Regression: entries, inverse, failure\<close>

lemma matVecMul_length [simp]: "length (matVecMul A v) = length A"
  by (simp add: matVecMul_def)

lemma matVecMul_nth:
  "i < length A \<Longrightarrow> matVecMul A v ! i = (\<Sum>j<length (A ! i). A ! i ! j * v ! j)"
  by (simp add: matVecMul_def reduce_idx_add)

lemma vecDot_sum: "vecDot a b = (\<Sum>i<length a. a ! i * b ! i)"
  by (simp add: vecDot_def reduce_idx_add)

lemma matAdd_length [simp]: "length (matAdd A B) = length A"
  by (simp add: matAdd_def)

lemma matAdd_row_length: "i < length A \<Longrightarrow> length (matAdd A B ! i) = length (A ! i)"
  by (simp add: matAdd_def)

lemma matAdd_nth:
  "i < length A \<Longrightarrow> j < length (A ! i) \<Longrightarrow> matAdd A B ! i ! j = A ! i ! j + B ! i ! j"
  by (simp add: matAdd_def)

lemma square_matAdd: "square n A \<Longrightarrow> square n (matAdd A B)"
  by (simp add: square_def matAdd_row_length)

lemma XtX2_nth:
  "j < p \<Longrightarrow> k < p \<Longrightarrow> XtX2 X n p ! j ! k = (\<Sum>i<n. X ! i ! j * X ! i ! k)"
  by (simp add: XtX2_def foldl_add_upt del: upt_Suc)

lemma Xty_length [simp]: "length (Xty X y n p) = p"
  by (simp add: Xty_def)

lemma Xty_nth: "j < p \<Longrightarrow> Xty X y n p ! j = (\<Sum>i<n. X ! i ! j * y ! i)"
  by (simp add: Xty_def foldl_add_upt del: upt_Suc)

lemma identityMatrix_square: "square n (identityMatrix n)"
  by (simp add: square_def identityMatrix_def)

lemma identityMatrix_nth:
  "i < n \<Longrightarrow> j < n \<Longrightarrow> identityMatrix n ! i ! j = (if i = j then 1 else 0)"
  by (simp add: identityMatrix_def)

text \<open>A product is the identity when its entries are.\<close>

lemma matMul_identityI:
  assumes "0 < n" and "length A = n" and "square n B"
    and "\<And>i j. i < n \<Longrightarrow> j < n \<Longrightarrow> (\<Sum>l<n. A ! i ! l * B ! l ! j) = (if i = j then 1 else 0)"
  shows "matMul A B = Inr (identityMatrix n)"
proof -
  from assms(1,3) have Bne: "B \<noteq> []" and lb: "length B = n" and l0: "length (B ! 0) = n"
    by (auto simp add: square_def)
  have E: "foldl (\<lambda>s l. s + A ! i ! l * B ! l ! j) 0 [0..<length B] = (if i = j then 1 else 0)"
    if "i < n" "j < n" for i j
    using that by (simp add: foldl_add_upt lb assms(4))
  have "matMul A B = Inr (map (\<lambda>i. map (\<lambda>j. foldl (\<lambda>s l. s + A ! i ! l * B ! l ! j) 0
      [0..<length B]) [0..<n]) [0..<n])"
    using Bne l0 by (cases B) (simp_all add: matMul_def assms(2))
  also have "map (\<lambda>i. map (\<lambda>j. foldl (\<lambda>s l. s + A ! i ! l * B ! l ! j) 0
      [0..<length B]) [0..<n]) [0..<n] = identityMatrix n"
    unfolding identityMatrix_def
    by (intro map_cong refl) (simp add: E)
  finally show ?thesis .
qed

lemma matMul_identityD:
  assumes "matMul A B = Inr (identityMatrix n)" and "square n B" and "i < n" and "j < n"
  shows "(\<Sum>l<n. A ! i ! l * B ! l ! j) = (if i = j then 1 else 0)"
proof -
  from assms(2,3) have Bne: "B \<noteq> []" and lB: "length B = n" and l0: "length (B ! 0) = n"
    by (auto simp add: square_def)
  from assms(1) Bne have lA: "length A = n"
    by (cases B) (auto simp add: matMul_def identityMatrix_def dest: arg_cong [where f = length])
  from matMul_nth [OF Bne, of i A j] assms(1,3,4) lA l0 lB show ?thesis
    by (simp add: identityMatrix_nth)
qed

text \<open>What \<open>matInvert\<close> returns is a two-sided inverse.\<close>

lemma matInvert_inverse:
  assumes sq: "square n M" and pos: "0 < n" and inv: "matInvert M = Some B"
  shows "square n B \<and> matMul B M = Inr (identityMatrix n) \<and> matMul M B = Inr (identityMatrix n)"
proof -
  note L = matInvert_left_inverse_entries [OF sq inv]
  note R = matInvert_right_inverse_entries [OF sq inv]
  from L have sqB: "square n B" by (simp add: square_def)
  have "matMul B M = Inr (identityMatrix n)"
    using pos _ sq by (rule matMul_identityI) (use L in simp_all)
  moreover have "matMul M B = Inr (identityMatrix n)"
    using pos _ sqB by (rule matMul_identityI) (use R sq in \<open>simp_all add: square_def\<close>)
  ultimately show ?thesis using sqB by simp
qed

text \<open>A matrix with no left inverse makes \<open>matInvert\<close> return \<open>None\<close>.\<close>

lemma matInvert_singular:
  assumes "square n M" and "0 < n" and "\<nexists>B. matMul B M = Inr (identityMatrix n)"
  shows "matInvert M = None"
  using matInvert_inverse [OF assms(1,2)] assms(3) by (cases "matInvert M") auto

text \<open>Where the loop stops: at the first column whose chosen pivot is below the tolerance.\<close>

lemma invertStep_None_iff:
  "invertStep n aug k = None
     \<longleftrightarrow> \<bar>swapRows aug k (findMaxRow aug n k) ! k ! k\<bar> < pivot_tol"
  by (simp add: invertStep_def Let_def)

lemma invertLoop_append:
  "invertLoop n aug (cs @ ds) =
     (case invertLoop n aug cs of None \<Rightarrow> None | Some aug' \<Rightarrow> invertLoop n aug' ds)"
  by (induction cs arbitrary: aug) (simp_all split: option.splits)

lemma invertLoop_None_iff:
  "invertLoop n aug [k..<m] = None
     \<longleftrightarrow> (\<exists>c aug'. k \<le> c \<and> c < m \<and> invertLoop n aug [k..<c] = Some aug' \<and> invertStep n aug' c = None)"
proof (induction "m - k" arbitrary: m)
  case 0
  then show ?case by auto
next
  case (Suc d)
  then obtain m' where m: "m = Suc m'" and km: "k \<le> m'" by (cases m) auto
  have d: "d = m' - k" using Suc.hyps(2) m by simp
  have upt: "[k..<m] = [k..<m'] @ [m']" using m km by simp
  show ?case
  proof (cases "invertLoop n aug [k..<m'] = None")
    case True
    then obtain c aug' where "k \<le> c" "c < m'" "invertLoop n aug [k..<c] = Some aug'"
      "invertStep n aug' c = None"
      using Suc.hyps(1) [OF d] by auto
    then show ?thesis using True m by (auto simp add: upt invertLoop_append)
  next
    case False
    then obtain a where a: "invertLoop n aug [k..<m'] = Some a" by auto
    have no: "\<not> (\<exists>c aug'. k \<le> c \<and> c < m' \<and> invertLoop n aug [k..<c] = Some aug' \<and> invertStep n aug' c = None)"
      using Suc.hyps(1) [OF d] False by simp
    show ?thesis
    proof
      assume "invertLoop n aug [k..<m] = None"
      then have "invertStep n a m' = None"
        by (simp add: upt invertLoop_append a split: option.splits)
      then show "\<exists>c aug'. k \<le> c \<and> c < m \<and> invertLoop n aug [k..<c] = Some aug' \<and> invertStep n aug' c = None"
        using a km m by auto
    next
      assume "\<exists>c aug'. k \<le> c \<and> c < m \<and> invertLoop n aug [k..<c] = Some aug' \<and> invertStep n aug' c = None"
      then obtain c aug' where c: "k \<le> c" "c < m" "invertLoop n aug [k..<c] = Some aug'"
        "invertStep n aug' c = None" by auto
      with no have "c = m'" using m by (cases "c < m'") auto
      with c a show "invertLoop n aug [k..<m] = None"
        by (simp add: upt invertLoop_append)
    qed
  qed
qed

lemma matInvert_None_iff:
  "matInvert M = None
     \<longleftrightarrow> (\<exists>c aug. c < length M \<and> invertLoop (length M) (augment M) [0..<c] = Some aug
            \<and> \<bar>swapRows aug c (findMaxRow aug (length M) c) ! c ! c\<bar> < pivot_tol)"
  by (simp add: matInvert_def Let_def invertLoop_None_iff invertStep_None_iff)

text \<open>When \<open>bayesianRegression\<close> raises, fails, returns.\<close>

lemma bayesianRegression_cases:
  assumes "X \<noteq> []" and "length y \<le> length X"
  shows "(matInvert (matAdd Lambda0 (XtX2 X (length y) (length (hd X)))) = None
            \<longrightarrow> bayesianRegression X y mu0 Lambda0 a0 b0 = Inr None)
       \<and> (matInvert (matAdd Lambda0 (XtX2 X (length y) (length (hd X)))) \<noteq> None
            \<longrightarrow> (\<exists>post. bayesianRegression X y mu0 Lambda0 a0 b0 = Inr (Some post)))"
  using assms by (cases X) (auto simp add: bayesianRegression_def Let_def)

lemmas kernel_eval = matInvert_def augment_def map_idx_def invertStep_def findMaxRow_def
  swapRows_def eliminate_def pivot_tol_def Let_def XtX2_def Xty_def matAdd_def matVecMul_def
  vecDot_def reduce_idx_def identityMatrix_def matMul_def

lemma bayesianRegression_Some:
  assumes "X \<noteq> []" and "length y \<le> length X"
    and "matInvert (matAdd Lambda0 (XtX2 X (length y) (length (hd X)))) = Some Linv"
  shows "\<exists>post. bayesianRegression X y mu0 Lambda0 a0 b0 = Inr (Some post)
     \<and> LambdaN post = matAdd Lambda0 (XtX2 X (length y) (length (hd X)))
     \<and> LambdaN_inv post = Linv
     \<and> muN post = matVecMul Linv
          (map_idx (\<lambda>v j. v + Xty X y (length y) (length (hd X)) ! j) (matVecMul Lambda0 mu0))
     \<and> aN post = a0 + real (length y) / 2
     \<and> bN post = b0 + 1 / 2 * (vecDot y y + vecDot mu0 (matVecMul Lambda0 mu0)
          - vecDot (muN post) (matVecMul (LambdaN post) (muN post)))
     \<and> logML post = - real (length y) / 2 * ln (2 * pi)
          + 1 / 2 * ln \<bar>matDet Lambda0\<bar> - 1 / 2 * ln \<bar>matDet (LambdaN post)\<bar>
          + a0 * ln b0 - aN post * ln (bN post)
          + fin (logGamma (aN post)) - fin (logGamma a0)
     \<and> betaOLS post = (case matInvert (XtX2 X (length y) (length (hd X))) of
          Some XtX_inv \<Rightarrow> matVecMul XtX_inv (Xty X y (length y) (length (hd X)))
        | None \<Rightarrow> muN post)"
  using assms by (cases X) (simp_all add: bayesianRegression_def Let_def split: option.splits)

lemma sum_delta_left:
  assumes "j < (n::nat)"
  shows "(\<Sum>l<n. (if j = l then 1 else 0) * (s l :: real)) = s j"
proof -
  have "(\<Sum>l<n. (if j = l then 1 else 0) * s l) = (\<Sum>l<n. if j = l then s l else 0)"
    by (rule sum.cong) simp_all
  also have "\<dots> = s j"
    using assms by simp
  finally show ?thesis .
qed

lemma w_shapes: "regression_shapes [[1, 0], [1, 1]] [1, 2] [0, 0] [[1, 0], [0, 1]] 2"
  by (simp add: regression_shapes_def square_def less_Suc_eq numeral_2_eq_2)

lemma reg_example_inverse:
  "matInvert (matAdd [[1, 0], [0, 1]]
      (XtX2 [[1, 0], [1, 0]] (length [1, 2 :: real]) (length (hd [[1, 0], [1, 0 :: real]]))))
     = Some [[1 / 3, 0], [0, 1]]"
  by (simp add: kernel_eval upt_conv_Cons)

lemma reg_example_XtX:
  "matInvert (XtX2 [[1, 0], [1, 0]] (length [1, 2 :: real]) (length (hd [[1, 0], [1, 0 :: real]])))
     = None"
  by (simp add: kernel_eval upt_conv_Cons)

section \<open>Posterior shape and variance at concrete data\<close>

lemma bayesianRegression_aN:
  assumes "bayesianRegression X y mu0 Lambda0 a0 b0 = Inr (Some post)"
  shows "aN post = a0 + real (length y) / 2"
  using assms
  by (cases X) (auto simp add: bayesianRegression_def Let_def split: if_splits option.splits)

lemma var_example_1:
  "result_variance (bayesianRegression [[1]] [0] [0] [[1]] 1 1) 0 = Some (1 / 3)"
proof -
  have i: "matInvert (matAdd [[1]] (XtX2 [[1]] (length ([0] :: vec)) (length (hd ([[1]] :: mat)))))
      = Some [[1 / 2]]"
    by (simp add: kernel_eval upt_conv_Cons)
  from bayesianRegression_Some [OF _ _ i, of "[0]" "1" "1"]
  obtain post where p: "bayesianRegression [[1]] [0] [0] [[1]] 1 1 = Inr (Some post)"
    and li: "LambdaN_inv post = [[1 / 2]]"
    and fa: "aN post = 1 + real (length ([0] :: vec)) / 2"
    and fb: "bN post = 1 + 1 / 2 * (vecDot [0] [0] + vecDot [0] (matVecMul [[1]] [0])
          - vecDot (muN post) (matVecMul (LambdaN post) (muN post)))"
    and fm: "muN post = matVecMul [[1 / 2]]
          (map_idx (\<lambda>v j. v + Xty [[1]] [0] (length ([0] :: vec)) (length (hd ([[1]] :: mat))) ! j)
             (matVecMul [[1]] [0]))"
    and fl: "LambdaN post = matAdd [[1]] (XtX2 [[1]] (length ([0] :: vec)) (length (hd ([[1]] :: mat))))"
    by auto
  have a: "aN post = 3 / 2"
    using fa by simp
  have b: "bN post = 1"
    unfolding fb fm fl by (simp add: kernel_eval upt_conv_Cons)
  show ?thesis
    by (simp add: result_variance_def marginalVariance_def p li a b)
qed

lemma var_example_2:
  "result_variance (bayesianRegression [[1], [1]] [0, 0] [0] [[1]] 1 1) 0 = Some (1 / 6)"
proof -
  have i: "matInvert (matAdd [[1]] (XtX2 [[1], [1]] (length ([0, 0] :: vec)) (length (hd ([[1], [1]] :: mat)))))
      = Some [[1 / 3]]"
    by (simp add: kernel_eval upt_conv_Cons)
  from bayesianRegression_Some [OF _ _ i, of "[0]" "1" "1"]
  obtain post where p: "bayesianRegression [[1], [1]] [0, 0] [0] [[1]] 1 1 = Inr (Some post)"
    and li: "LambdaN_inv post = [[1 / 3]]"
    and fa: "aN post = 1 + real (length ([0, 0] :: vec)) / 2"
    and fb: "bN post = 1 + 1 / 2 * (vecDot [0, 0] [0, 0] + vecDot [0] (matVecMul [[1]] [0])
          - vecDot (muN post) (matVecMul (LambdaN post) (muN post)))"
    and fm: "muN post = matVecMul [[1 / 3]]
          (map_idx (\<lambda>v j. v + Xty [[1], [1]] [0, 0] (length ([0, 0] :: vec)) (length (hd ([[1], [1]] :: mat))) ! j)
             (matVecMul [[1]] [0]))"
    and fl: "LambdaN post = matAdd [[1]] (XtX2 [[1], [1]] (length ([0, 0] :: vec)) (length (hd ([[1], [1]] :: mat))))"
    by auto
  have a: "aN post = 2"
    using fa by simp
  have b: "bN post = 1"
    unfolding fb fm fl by (simp add: kernel_eval upt_conv_Cons)
  show ?thesis
    by (simp add: result_variance_def marginalVariance_def p li a b)
qed

lemma var_example_3:
  "result_variance (bayesianRegression [[1]] [1] [0] [[100]] 100 (1 / 1000)) 0 = Some ((1 / 1000 + 50 / 101) / (201 / 2) / 101)"
proof -
  have i: "matInvert (matAdd [[100]] (XtX2 [[1]] (length ([1] :: vec)) (length (hd ([[1]] :: mat)))))
      = Some [[1 / 101]]"
    by (simp add: kernel_eval upt_conv_Cons)
  from bayesianRegression_Some [OF _ _ i, of "[0]" "100" "(1 / 1000)"]
  obtain post where p: "bayesianRegression [[1]] [1] [0] [[100]] 100 (1 / 1000) = Inr (Some post)"
    and li: "LambdaN_inv post = [[1 / 101]]"
    and fa: "aN post = 100 + real (length ([1] :: vec)) / 2"
    and fb: "bN post = (1 / 1000) + 1 / 2 * (vecDot [1] [1] + vecDot [0] (matVecMul [[100]] [0])
          - vecDot (muN post) (matVecMul (LambdaN post) (muN post)))"
    and fm: "muN post = matVecMul [[1 / 101]]
          (map_idx (\<lambda>v j. v + Xty [[1]] [1] (length ([1] :: vec)) (length (hd ([[1]] :: mat))) ! j)
             (matVecMul [[100]] [0]))"
    and fl: "LambdaN post = matAdd [[100]] (XtX2 [[1]] (length ([1] :: vec)) (length (hd ([[1]] :: mat))))"
    by auto
  have a: "aN post = 201 / 2"
    using fa by simp
  have b: "bN post = 50101 / 101000"
    unfolding fb fm fl by (simp add: kernel_eval upt_conv_Cons)
  show ?thesis
    by (simp add: result_variance_def marginalVariance_def p li a b)
qed

lemma var_example_4:
  "result_variance (bayesianRegression [[1], [1]] [1, 1] [0] [[100]] 100 (1 / 1000)) 0 = Some ((1 / 1000 + 50 / 51) / 101 / 102)"
proof -
  have i: "matInvert (matAdd [[100]] (XtX2 [[1], [1]] (length ([1, 1] :: vec)) (length (hd ([[1], [1]] :: mat)))))
      = Some [[1 / 102]]"
    by (simp add: kernel_eval upt_conv_Cons)
  from bayesianRegression_Some [OF _ _ i, of "[0]" "100" "(1 / 1000)"]
  obtain post where p: "bayesianRegression [[1], [1]] [1, 1] [0] [[100]] 100 (1 / 1000) = Inr (Some post)"
    and li: "LambdaN_inv post = [[1 / 102]]"
    and fa: "aN post = 100 + real (length ([1, 1] :: vec)) / 2"
    and fb: "bN post = (1 / 1000) + 1 / 2 * (vecDot [1, 1] [1, 1] + vecDot [0] (matVecMul [[100]] [0])
          - vecDot (muN post) (matVecMul (LambdaN post) (muN post)))"
    and fm: "muN post = matVecMul [[1 / 102]]
          (map_idx (\<lambda>v j. v + Xty [[1], [1]] [1, 1] (length ([1, 1] :: vec)) (length (hd ([[1], [1]] :: mat))) ! j)
             (matVecMul [[100]] [0]))"
    and fl: "LambdaN post = matAdd [[100]] (XtX2 [[1], [1]] (length ([1, 1] :: vec)) (length (hd ([[1], [1]] :: mat))))"
    by auto
  have a: "aN post = 101"
    using fa by simp
  have b: "bN post = 50051 / 51000"
    unfolding fb fm fl by (simp add: kernel_eval upt_conv_Cons)
  show ?thesis
    by (simp add: result_variance_def marginalVariance_def p li a b)
qed

section \<open>Quadratic forms, the posterior scale and the inverse precision\<close>

lemma qform_alt: "qform p A v = (\<Sum>r<p. v r * (\<Sum>c<p. A r c * v c))"
  by (simp add: qform_def sum_distrib_left mult.assoc)

lemma qform_add:
  "qform p (\<lambda>r c. A r c + G r c) v = qform p A v + qform p G v"
  by (simp add: qform_def algebra_simps sum.distrib)

lemma bilinear_sym:
  assumes "\<And>r c. r < p \<Longrightarrow> c < p \<Longrightarrow> A r c = A c r"
  shows "(\<Sum>r<p. u r * (\<Sum>c<p. A r c * w c)) = (\<Sum>r<p. w r * (\<Sum>c<p. A r c * u c :: real))"
proof -
  have "(\<Sum>r<p. u r * (\<Sum>c<p. A r c * w c)) = (\<Sum>r<p. \<Sum>c<p. u r * A r c * w c)"
    by (simp add: sum_distrib_left mult.assoc)
  also have "\<dots> = (\<Sum>c<p. \<Sum>r<p. u r * A r c * w c)"
    by (rule sum.swap)
  also have "\<dots> = (\<Sum>c<p. \<Sum>r<p. w c * A c r * u r)"
    by (intro sum.cong refl) (simp add: assms)
  also have "\<dots> = (\<Sum>r<p. w r * (\<Sum>c<p. A r c * u c))"
    by (simp add: sum_distrib_left mult.assoc)
  finally show ?thesis .
qed

lemma qform_diff:
  assumes "\<And>r c. r < p \<Longrightarrow> c < p \<Longrightarrow> A r c = A c r"
  shows "qform p A (\<lambda>r. w r - u r)
     = qform p A w - 2 * (\<Sum>r<p. w r * (\<Sum>c<p. A r c * u c)) + qform p A u"
proof -
  have "qform p A (\<lambda>r. w r - u r)
      = (\<Sum>r<p. w r * (\<Sum>c<p. A r c * w c)) - (\<Sum>r<p. w r * (\<Sum>c<p. A r c * u c))
        - (\<Sum>r<p. u r * (\<Sum>c<p. A r c * w c)) + (\<Sum>r<p. u r * (\<Sum>c<p. A r c * u c))"
    by (simp add: qform_alt algebra_simps sum_subtractf sum.distrib)
  also have "(\<Sum>r<p. u r * (\<Sum>c<p. A r c * w c)) = (\<Sum>r<p. w r * (\<Sum>c<p. A r c * u c))"
    using assms by (rule bilinear_sym)
  finally show ?thesis by (simp add: qform_alt)
qed

lemma qform_gram:
  "qform p (\<lambda>r c. \<Sum>i<n. X i r * X i c) v = (\<Sum>i<n. (\<Sum>r<p. X i r * v r)\<^sup>2)"
proof -
  have "(\<Sum>i<n. (\<Sum>r<p. X i r * v r)\<^sup>2) = (\<Sum>i<n. \<Sum>r<p. \<Sum>c<p. v r * (X i r * X i c) * v c)"
    by (simp add: power2_eq_square sum_product algebra_simps)
  also have "\<dots> = (\<Sum>r<p. \<Sum>i<n. \<Sum>c<p. v r * (X i r * X i c) * v c)"
    by (rule sum.swap)
  also have "\<dots> = (\<Sum>r<p. \<Sum>c<p. \<Sum>i<n. v r * (X i r * X i c) * v c)"
    by (intro sum.cong refl) (rule sum.swap)
  also have "\<dots> = qform p (\<lambda>r c. \<Sum>i<n. X i r * X i c) v"
    by (simp add: qform_def sum_distrib_left sum_distrib_right)
  finally show ?thesis by simp
qed

lemma qform_gram_nonneg: "0 \<le> qform p (\<lambda>r c. \<Sum>i<n. X i r * X i c) v"
  unfolding qform_gram by (rule sum_nonneg) simp

lemma sum_square_diff:
  "(\<Sum>i<n. (y i - t i)\<^sup>2) = (\<Sum>i<n. y i * y i) - 2 * (\<Sum>i<n. y i * t i) + (\<Sum>i<n. (t i :: real)\<^sup>2)"
proof -
  have "(y i - t i)\<^sup>2 = y i * y i - 2 * (y i * t i) + (t i)\<^sup>2" for i
    by (simp add: power2_eq_square algebra_simps)
  then show ?thesis
    by (simp add: sum.distrib sum_subtractf sum_distrib_left)
qed

text \<open>The penalised sum of squares, expanded around any coefficient vector.\<close>

lemma penalised_expand:
  assumes sym: "\<And>r c. r < p \<Longrightarrow> c < p \<Longrightarrow> L r c = L c r"
  shows "(\<Sum>i<n. (y i - (\<Sum>r<p. X i r * b r))\<^sup>2) + qform p L (\<lambda>r. b r - m r)
     = (\<Sum>i<n. y i * y i) + qform p L m
       - 2 * (\<Sum>r<p. b r * ((\<Sum>c<p. L r c * m c) + (\<Sum>i<n. X i r * y i)))
       + qform p (\<lambda>r c. L r c + (\<Sum>i<n. X i r * X i c)) b"
proof -
  have sq: "(\<Sum>i<n. (y i - (\<Sum>r<p. X i r * b r))\<^sup>2)
      = (\<Sum>i<n. y i * y i) - 2 * (\<Sum>i<n. y i * (\<Sum>r<p. X i r * b r))
        + (\<Sum>i<n. (\<Sum>r<p. X i r * b r)\<^sup>2)"
    by (rule sum_square_diff)
  have cross: "(\<Sum>i<n. y i * (\<Sum>r<p. X i r * b r)) = (\<Sum>r<p. b r * (\<Sum>i<n. X i r * y i))"
  proof -
    have "(\<Sum>i<n. y i * (\<Sum>r<p. X i r * b r)) = (\<Sum>i<n. \<Sum>r<p. b r * (X i r * y i))"
      by (simp add: sum_distrib_left algebra_simps)
    also have "\<dots> = (\<Sum>r<p. \<Sum>i<n. b r * (X i r * y i))"
      by (rule sum.swap)
    finally show ?thesis by (simp add: sum_distrib_left)
  qed
  have d: "qform p L (\<lambda>r. b r - m r)
      = qform p L b - 2 * (\<Sum>r<p. b r * (\<Sum>c<p. L r c * m c)) + qform p L m"
    using sym by (rule qform_diff)
  have split: "(\<Sum>r<p. b r * ((\<Sum>c<p. L r c * m c) + (\<Sum>i<n. X i r * y i)))
      = (\<Sum>r<p. b r * (\<Sum>c<p. L r c * m c)) + (\<Sum>r<p. b r * (\<Sum>i<n. X i r * y i))"
    by (simp add: distrib_left sum.distrib)
  show ?thesis
    unfolding sq cross d split qform_add qform_gram by simp
qed



lemma qform_zero:
  assumes "\<And>r. r < p \<Longrightarrow> v r = 0"
  shows "qform p A v = 0"
  using assms by (simp add: qform_def)

lemma spd_nonneg:
  assumes "spd p L"
  shows "0 \<le> qform p (\<lambda>r c. L ! r ! c) v"
proof (cases "\<exists>r<p. v r \<noteq> 0")
  case True
  with assms have "0 < qform p (\<lambda>r c. L ! r ! c) v" by (simp add: spd_def)
  then show ?thesis by simp
next
  case False
  then have "qform p (\<lambda>r c. L ! r ! c) v = 0" by (intro qform_zero) simp
  then show ?thesis by simp
qed

lemma qform_precision:
  "qform p (precision L X n) v
     = qform p (\<lambda>r c. L ! r ! c) v + (\<Sum>i<n. (\<Sum>r<p. X ! i ! r * v r)\<^sup>2)"
proof -
  have "precision L X n = (\<lambda>r c. L ! r ! c + (\<Sum>i<n. X ! i ! r * X ! i ! c))"
    by (intro ext) (simp add: precision_def)
  then show ?thesis
    by (simp add: qform_add qform_gram)
qed

lemma precision_sym:
  assumes "spd p L" and "r < p" and "c < p"
  shows "precision L X n r c = precision L X n c r"
  using assms by (simp add: precision_def spd_def mult.commute)

lemma precision_nonneg:
  assumes "spd p L"
  shows "0 \<le> qform p (precision L X n) v"
  unfolding qform_precision using spd_nonneg [OF assms, of v]
  by (simp add: add_nonneg_nonneg sum_nonneg)

lemma precision_pos:
  assumes "spd p L" and "\<exists>r<p. v r \<noteq> 0"
  shows "0 < qform p (precision L X n) v"
proof -
  from assms have "0 < qform p (\<lambda>r c. L ! r ! c) v" by (simp add: spd_def)
  moreover have "0 \<le> (\<Sum>i<n. (\<Sum>r<p. X ! i ! r * v r)\<^sup>2)" by (rule sum_nonneg) simp
  ultimately show ?thesis unfolding qform_precision by simp
qed

lemma sum_lessThan_add:
  "(\<Sum>i<n + (k::nat). f i) = (\<Sum>i<n. f i) + (\<Sum>i<k. f (n + i) :: real)"
  by (induction k) simp_all

lemma sum_pick:
  assumes "j < (p::nat)"
  shows "(\<Sum>r<p. v r * (if r = j then 1 else 0)) = (v j :: real)"
proof -
  have "(\<Sum>r<p. v r * (if r = j then 1 else 0)) = (\<Sum>r<p. if r = j then v r else 0)"
    by (rule sum.cong) simp_all
  also have "\<dots> = v j"
    using assms by simp
  finally show ?thesis .
qed

lemma precision_append:
  assumes "n = length X"
  shows "precision L (X @ Xe) (n + k) r c = precision L X n r c + (\<Sum>i<k. Xe ! i ! r * Xe ! i ! c)"
  using assms by (simp add: precision_def sum_lessThan_add nth_append)

lemma qform_precision_append:
  assumes "n = length X"
  shows "qform p (precision L (X @ Xe) (n + k)) v
     = qform p (precision L X n) v + (\<Sum>i<k. (\<Sum>r<p. Xe ! i ! r * v r)\<^sup>2)"
proof -
  have "precision L (X @ Xe) (n + k) = (\<lambda>r c. precision L X n r c + (\<Sum>i<k. Xe ! i ! r * Xe ! i ! c))"
    by (intro ext) (simp add: precision_append assms)
  then show ?thesis
    by (simp add: qform_add qform_gram)
qed

text \<open>Column \<open>j\<close> of the inverse of the larger precision has the smaller diagonal entry.\<close>

lemma inverse_diag_mono:
  assumes sym: "\<And>r c. r < p \<Longrightarrow> c < p \<Longrightarrow> A r c = A c r"
    and psd: "\<And>v. 0 \<le> qform p A v"
    and le: "\<And>v. qform p A v \<le> qform p A' v"
    and Au: "\<And>r. r < p \<Longrightarrow> (\<Sum>c<p. A r c * u c) = (if r = j then 1 else 0)"
    and A'w: "\<And>r. r < p \<Longrightarrow> (\<Sum>c<p. A' r c * w c) = (if r = j then 1 else 0)"
    and j: "j < p"
  shows "w j \<le> u j \<and> qform p A' w = w j"
proof -
  have pick: "(\<Sum>r<p. v r * (if r = j then 1 else 0)) = (v j :: real)" for v
    using j by (rule sum_pick)
  have wq: "qform p A' w = w j"
    unfolding qform_alt using pick [of w] by (simp add: A'w)
  have uq: "qform p A u = u j"
    unfolding qform_alt using pick [of u] by (simp add: Au)
  have cross: "(\<Sum>r<p. w r * (\<Sum>c<p. A r c * u c)) = w j"
    using pick [of w] by (simp add: Au)
  have "0 \<le> qform p A (\<lambda>r. w r - u r)" by (rule psd)
  also have "\<dots> = qform p A w - 2 * w j + u j"
    using qform_diff [of p A w u, OF sym] by (simp add: cross uq)
  finally have "2 * w j \<le> qform p A w + u j" by simp
  moreover have "qform p A w \<le> w j" using le [of w] by (simp add: wq)
  ultimately show ?thesis using wq by simp
qed

lemma inverse_diag_pos:
  assumes pd: "\<And>v. \<exists>r<p. v r \<noteq> 0 \<Longrightarrow> 0 < qform p A' v"
    and A'w: "\<And>r. r < p \<Longrightarrow> (\<Sum>c<p. A' r c * w c) = (if r = j then 1 else 0)"
    and j: "j < p"
  shows "0 < qform p A' w"
proof (rule pd, rule ccontr)
  assume "\<not> (\<exists>r<p. w r \<noteq> 0)"
  then have "(\<Sum>c<p. A' j c * w c) = 0" by simp
  with A'w [OF j] show False by simp
qed



lemma regression_design:
  "regression_shapes X y mu0 Lambda0 p \<Longrightarrow> design_shapes X y mu0 Lambda0 p"
  by (simp add: regression_shapes_def design_shapes_def)

text \<open>The fields of a returned posterior, entry by entry.\<close>

lemma bayesianRegression_sums:
  assumes shapes: "design_shapes X y mu0 Lambda0 p"
    and res: "bayesianRegression X y mu0 Lambda0 a0 b0 = Inr (Some post)"
  shows "square p (LambdaN_inv post)"
    and "length (muN post) = p"
    and "\<And>r j. r < p \<Longrightarrow> j < p \<Longrightarrow>
           (\<Sum>c<p. precision Lambda0 X (length y) r c * LambdaN_inv post ! c ! j) = (if r = j then 1 else 0)"
    and "\<And>r. r < p \<Longrightarrow>
           (\<Sum>c<p. precision Lambda0 X (length y) r c * muN post ! c) = normal_rhs Lambda0 X y mu0 p r"
    and "bN post = b0 + 1 / 2 * ((\<Sum>i<length y. y ! i * y ! i)
            + qform p (\<lambda>r c. Lambda0 ! r ! c) (\<lambda>r. mu0 ! r)
            - (\<Sum>r<p. muN post ! r * normal_rhs Lambda0 X y mu0 p r))"
    and "aN post = a0 + real (length y) / 2"
proof -
  from shapes have Xne: "X \<noteq> []" and pos: "0 < p" and ly: "length y \<le> length X"
    and lmu: "length mu0 = p" and sq0: "square p Lambda0"
    and rows: "\<And>r. r < length X \<Longrightarrow> length (X ! r) = p"
    by (simp_all add: design_shapes_def)
  from Xne rows [of 0] have p: "length (hd X) = p"
    by (cases X) simp_all
  define LN where "LN = matAdd Lambda0 (XtX2 X (length y) p)"
  have "matInvert LN \<noteq> None"
    using bayesianRegression_cases [OF Xne, of y Lambda0 mu0 a0 b0] res ly
    by (auto simp add: LN_def p)
  then obtain Linv where Linv: "matInvert LN = Some Linv"
    by auto
  from sq0 have l0: "length Lambda0 = p" and r0: "\<And>r. r < p \<Longrightarrow> length (Lambda0 ! r) = p"
    by (simp_all add: square_def)
  have sqN: "square p LN"
    unfolding LN_def using sq0 by (rule square_matAdd)
  then have lN: "length LN = p" and rN: "\<And>r. r < p \<Longrightarrow> length (LN ! r) = p"
    by (simp_all add: square_def)
  from matInvert_left_inverse_entries [OF sqN Linv]
  have lI: "length Linv = p" and rI: "\<And>r. r < p \<Longrightarrow> length (Linv ! r) = p"
    by simp_all
  note right = matInvert_right_inverse_entries [OF sqN Linv]
  from bayesianRegression_Some [OF Xne, of y Lambda0 Linv mu0 a0 b0] Linv ly res
  have fLN: "LambdaN post = LN" and fLI: "LambdaN_inv post = Linv"
    and fmu: "muN post = matVecMul Linv
          (map_idx (\<lambda>v j. v + Xty X y (length y) p ! j) (matVecMul Lambda0 mu0))"
    and fa: "aN post = a0 + real (length y) / 2"
    and fb: "bN post = b0 + 1 / 2 * (vecDot y y + vecDot mu0 (matVecMul Lambda0 mu0)
          - vecDot (muN post) (matVecMul (LambdaN post) (muN post)))"
    by (auto simp add: p LN_def)
  have entries: "LN ! r ! c = precision Lambda0 X (length y) r c" if "r < p" "c < p" for r c
    using that by (simp add: LN_def matAdd_nth l0 r0 XtX2_nth precision_def)
  show sqI: "square p (LambdaN_inv post)"
    by (simp add: fLI square_def lI rI)
  show lmuN: "length (muN post) = p"
    by (simp add: fmu lI)
  show R: "(\<Sum>c<p. precision Lambda0 X (length y) r c * LambdaN_inv post ! c ! j) = (if r = j then 1 else 0)"
    if "r < p" "j < p" for r j
  proof -
    have "(\<Sum>c<p. precision Lambda0 X (length y) r c * Linv ! c ! j) = (\<Sum>c<p. LN ! r ! c * Linv ! c ! j)"
      by (rule sum.cong) (simp_all add: entries that)
    with right that show ?thesis by (simp add: fLI)
  qed
  have sumv: "map_idx (\<lambda>v j. v + Xty X y (length y) p ! j) (matVecMul Lambda0 mu0) ! k
      = normal_rhs Lambda0 X y mu0 p k"
    if "k < p" for k
    using that by (simp add: l0 matVecMul_nth r0 Xty_nth normal_rhs_def)
  have mu: "muN post ! j = (\<Sum>k<p. Linv ! j ! k * normal_rhs Lambda0 X y mu0 p k)" if "j < p" for j
    using that by (simp add: fmu matVecMul_nth lI rI sumv)
  show normal: "(\<Sum>c<p. precision Lambda0 X (length y) r c * muN post ! c) = normal_rhs Lambda0 X y mu0 p r"
    if r: "r < p" for r
  proof -
    let ?s = "normal_rhs Lambda0 X y mu0 p"
    let ?A = "precision Lambda0 X (length y)"
    have "(\<Sum>k<p. ?A r k * muN post ! k) = (\<Sum>k<p. \<Sum>l<p. ?A r k * Linv ! k ! l * ?s l)"
      by (rule sum.cong) (simp_all add: mu sum_distrib_left mult.assoc)
    also have "\<dots> = (\<Sum>l<p. \<Sum>k<p. ?A r k * Linv ! k ! l * ?s l)"
      by (rule sum.swap)
    also have "\<dots> = (\<Sum>l<p. (\<Sum>k<p. ?A r k * Linv ! k ! l) * ?s l)"
      by (simp add: sum_distrib_right)
    also have "\<dots> = (\<Sum>l<p. (if r = l then 1 else 0) * ?s l)"
      using R [OF r] by (intro sum.cong refl) (simp add: fLI)
    also have "\<dots> = ?s r"
      using r by (rule sum_delta_left)
    finally show ?thesis .
  qed
  show "bN post = b0 + 1 / 2 * ((\<Sum>i<length y. y ! i * y ! i)
            + qform p (\<lambda>r c. Lambda0 ! r ! c) (\<lambda>r. mu0 ! r)
            - (\<Sum>r<p. muN post ! r * normal_rhs Lambda0 X y mu0 p r))"
  proof -
    have "vecDot mu0 (matVecMul Lambda0 mu0) = qform p (\<lambda>r c. Lambda0 ! r ! c) (\<lambda>r. mu0 ! r)"
      unfolding vecDot_sum lmu qform_alt by (rule sum.cong) (simp_all add: matVecMul_nth l0 r0)
    moreover have "vecDot (muN post) (matVecMul LN (muN post))
        = (\<Sum>r<p. muN post ! r * normal_rhs Lambda0 X y mu0 p r)"
    proof -
      have "vecDot (muN post) (matVecMul LN (muN post))
          = (\<Sum>r<p. muN post ! r * (\<Sum>c<p. LN ! r ! c * muN post ! c))"
        unfolding vecDot_sum lmuN by (rule sum.cong) (simp_all add: matVecMul_nth lN rN)
      also have "\<dots> = (\<Sum>r<p. muN post ! r * (\<Sum>c<p. precision Lambda0 X (length y) r c * muN post ! c))"
        by (intro sum.cong refl arg_cong2 [where f = "(*)"]) (simp_all add: entries)
      also have "\<dots> = (\<Sum>r<p. muN post ! r * normal_rhs Lambda0 X y mu0 p r)"
        by (intro sum.cong refl) (simp add: normal)
      finally show ?thesis .
    qed
    ultimately show ?thesis
      by (simp add: fb fLN vecDot_sum)
  qed
  show "aN post = a0 + real (length y) / 2" by (rule fa)
qed

lemma precision_fun:
  "(\<lambda>r c. L ! r ! c + (\<Sum>i<n. X ! i ! r * X ! i ! c)) = precision L X n"
  by (intro ext) (simp add: precision_def)

lemma penalised_expand_list:
  assumes spd: "spd p L"
  shows "penalised L X y mu0 p b
     = (\<Sum>i<length y. y ! i * y ! i) + qform p (\<lambda>r c. L ! r ! c) (\<lambda>r. mu0 ! r)
       - 2 * (\<Sum>r<p. b r * normal_rhs L X y mu0 p r) + qform p (precision L X (length y)) b"
proof -
  have sym: "\<And>r c. r < p \<Longrightarrow> c < p \<Longrightarrow> L ! r ! c = L ! c ! r"
    using spd by (simp add: spd_def)
  from penalised_expand [where p = p and L = "\<lambda>r c. L ! r ! c" and n = "length y"
      and y = "\<lambda>i. y ! i" and X = "\<lambda>i r. X ! i ! r" and b = b and m = "\<lambda>r. mu0 ! r", OF sym]
  show ?thesis
    by (simp add: penalised_def normal_rhs_def precision_fun)
qed

lemma penalised_at_solution:
  assumes spd: "spd p L"
    and normal: "\<And>r. r < p \<Longrightarrow> (\<Sum>c<p. precision L X (length y) r c * m c) = normal_rhs L X y mu0 p r"
  shows "penalised L X y mu0 p m
     = (\<Sum>i<length y. y ! i * y ! i) + qform p (\<lambda>r c. L ! r ! c) (\<lambda>r. mu0 ! r)
       - (\<Sum>r<p. m r * normal_rhs L X y mu0 p r)"
    and "penalised L X y mu0 p b
     = penalised L X y mu0 p m + qform p (precision L X (length y)) (\<lambda>r. b r - m r)"
proof -
  let ?A = "precision L X (length y)"
  have qm: "qform p ?A m = (\<Sum>r<p. m r * normal_rhs L X y mu0 p r)"
    unfolding qform_alt by (intro sum.cong refl) (simp add: normal)
  show at: "penalised L X y mu0 p m
     = (\<Sum>i<length y. y ! i * y ! i) + qform p (\<lambda>r c. L ! r ! c) (\<lambda>r. mu0 ! r)
       - (\<Sum>r<p. m r * normal_rhs L X y mu0 p r)"
    unfolding penalised_expand_list [OF spd] qm by simp
  have cross: "(\<Sum>r<p. b r * (\<Sum>c<p. ?A r c * m c)) = (\<Sum>r<p. b r * normal_rhs L X y mu0 p r)"
    by (intro sum.cong refl) (simp add: normal)
  have "qform p ?A (\<lambda>r. b r - m r)
      = qform p ?A b - 2 * (\<Sum>r<p. b r * (\<Sum>c<p. ?A r c * m c)) + qform p ?A m"
    by (rule qform_diff) (rule precision_sym [OF spd])
  then have "qform p ?A (\<lambda>r. b r - m r)
      = qform p ?A b - 2 * (\<Sum>r<p. b r * normal_rhs L X y mu0 p r) + (\<Sum>r<p. m r * normal_rhs L X y mu0 p r)"
    by (simp add: cross qm)
  then show "penalised L X y mu0 p b
     = penalised L X y mu0 p m + qform p (precision L X (length y)) (\<lambda>r. b r - m r)"
    unfolding at penalised_expand_list [OF spd, of X y mu0 b] by simp
qed

lemma penalised_nonneg:
  assumes "spd p L"
  shows "0 \<le> penalised L X y mu0 p b"
  unfolding penalised_def
  by (intro add_nonneg_nonneg sum_nonneg spd_nonneg [OF assms]) simp

lemma penalised_append:
  assumes "length y = length X"
  shows "penalised L (X @ Xe) (y @ ye) mu0 p b
     = penalised L X y mu0 p b + (\<Sum>i<length ye. (ye ! i - (\<Sum>r<p. Xe ! i ! r * b r))\<^sup>2)"
  using assms by (simp add: penalised_def sum_lessThan_add nth_append)

text \<open>
  The posterior scale is the prior scale plus half the penalised sum of squares at the
  posterior mean, which minimises it.
\<close>

lemma bN_penalised:
  assumes shapes: "design_shapes X y mu0 Lambda0 p" and spd: "spd p Lambda0"
    and res: "bayesianRegression X y mu0 Lambda0 a0 b0 = Inr (Some post)"
  shows "bN post = b0 + 1 / 2 * penalised Lambda0 X y mu0 p (\<lambda>r. muN post ! r)"
    and "penalised Lambda0 X y mu0 p (\<lambda>r. muN post ! r) \<le> penalised Lambda0 X y mu0 p b"
    and "b0 \<le> bN post"
proof -
  note S = bayesianRegression_sums [OF shapes res]
  have P1: "penalised Lambda0 X y mu0 p (\<lambda>r. muN post ! r)
     = (\<Sum>i<length y. y ! i * y ! i) + qform p (\<lambda>r c. Lambda0 ! r ! c) (\<lambda>r. mu0 ! r)
       - (\<Sum>r<p. muN post ! r * normal_rhs Lambda0 X y mu0 p r)"
    using spd S(4) by (rule penalised_at_solution(1))
  have P2: "penalised Lambda0 X y mu0 p b
     = penalised Lambda0 X y mu0 p (\<lambda>r. muN post ! r)
       + qform p (precision Lambda0 X (length y)) (\<lambda>r. b r - muN post ! r)"
    using spd S(4) by (rule penalised_at_solution(2))
  show b: "bN post = b0 + 1 / 2 * penalised Lambda0 X y mu0 p (\<lambda>r. muN post ! r)"
    unfolding S(5) P1 by simp
  show "penalised Lambda0 X y mu0 p (\<lambda>r. muN post ! r) \<le> penalised Lambda0 X y mu0 p b"
    unfolding P2 using precision_nonneg [OF spd, of X "length y" "\<lambda>r. b r - muN post ! r"]
    by simp
  show "b0 \<le> bN post"
    unfolding b using penalised_nonneg [OF spd, of X y mu0 "\<lambda>r. muN post ! r"] by simp
qed

lemma regression_shapes_append:
  assumes "regression_shapes X y mu0 Lambda0 p"
    and "\<forall>r<length Xe. length (Xe ! r) = p" and "length ye = length Xe"
  shows "regression_shapes (X @ Xe) (y @ ye) mu0 Lambda0 p"
  using assms by (auto simp add: regression_shapes_def nth_append)

lemma LambdaN_inv_diag_mono:
  assumes shapes: "regression_shapes X y mu0 Lambda0 p"
    and rows: "\<forall>r<length Xe. length (Xe ! r) = p" and len: "length ye = length Xe"
    and spd: "spd p Lambda0"
    and res: "bayesianRegression X y mu0 Lambda0 a0 b0 = Inr (Some post)"
    and res': "bayesianRegression (X @ Xe) (y @ ye) mu0 Lambda0 a0 b0 = Inr (Some post')"
    and j: "j < p"
  shows "0 < LambdaN_inv post' ! j ! j \<and> LambdaN_inv post' ! j ! j \<le> LambdaN_inv post ! j ! j"
proof -
  from shapes have ly: "length y = length X" by (simp add: regression_shapes_def)
  note shapes' = regression_shapes_append [OF shapes rows len]
  note S = bayesianRegression_sums [OF regression_design [OF shapes] res]
  note S' = bayesianRegression_sums [OF regression_design [OF shapes'] res']
  let ?A = "precision Lambda0 X (length y)"
  let ?A' = "precision Lambda0 (X @ Xe) (length y + length ye)"
  let ?u = "\<lambda>c. LambdaN_inv post ! c ! j"
  let ?w = "\<lambda>c. LambdaN_inv post' ! c ! j"
  have Au: "(\<Sum>c<p. ?A r c * ?u c) = (if r = j then 1 else 0)" if "r < p" for r
    using S(3) [OF that j] .
  have A'w: "(\<Sum>c<p. ?A' r c * ?w c) = (if r = j then 1 else 0)" if "r < p" for r
    using S'(3) [OF that j] by simp
  have le: "qform p ?A v \<le> qform p ?A' v" for v
  proof -
    have "0 \<le> (\<Sum>i<length ye. (\<Sum>r<p. Xe ! i ! r * v r)\<^sup>2)" by (rule sum_nonneg) simp
    then show ?thesis
      unfolding qform_precision_append [OF ly] by simp
  qed
  have "?w j \<le> ?u j \<and> qform p ?A' ?w = ?w j"
    using precision_sym [OF spd] precision_nonneg [OF spd] le Au A'w j
    by (rule inverse_diag_mono)
  moreover have "0 < qform p ?A' ?w"
    using precision_pos [OF spd] A'w j by (rule inverse_diag_pos)
  ultimately show ?thesis by simp
qed

lemma bN_mono:
  assumes shapes: "regression_shapes X y mu0 Lambda0 p"
    and rows: "\<forall>r<length Xe. length (Xe ! r) = p" and len: "length ye = length Xe"
    and spd: "spd p Lambda0"
    and res: "bayesianRegression X y mu0 Lambda0 a0 b0 = Inr (Some post)"
    and res': "bayesianRegression (X @ Xe) (y @ ye) mu0 Lambda0 a0 b0 = Inr (Some post')"
  shows "bN post \<le> bN post'"
    and "(\<forall>i<length Xe. ye ! i = vecDot (Xe ! i) (muN post)) \<Longrightarrow> bN post' = bN post"
proof -
  from shapes have ly: "length y = length X" by (simp add: regression_shapes_def)
  note shapes' = regression_shapes_append [OF shapes rows len]
  note B = bN_penalised [OF regression_design [OF shapes] spd res]
  note B' = bN_penalised [OF regression_design [OF shapes'] spd res']
  let ?m = "\<lambda>r. muN post ! r"
  let ?m' = "\<lambda>r. muN post' ! r"
  have app: "penalised Lambda0 (X @ Xe) (y @ ye) mu0 p b
      = penalised Lambda0 X y mu0 p b + (\<Sum>i<length ye. (ye ! i - (\<Sum>r<p. Xe ! i ! r * b r))\<^sup>2)" for b
    using ly by (rule penalised_append)
  have "penalised Lambda0 X y mu0 p ?m \<le> penalised Lambda0 X y mu0 p ?m'"
    by (rule B(2))
  also have "\<dots> \<le> penalised Lambda0 (X @ Xe) (y @ ye) mu0 p ?m'"
    unfolding app by (simp add: sum_nonneg)
  finally show up: "bN post \<le> bN post'"
    unfolding B(1) B'(1) by simp
  show "bN post' = bN post" if fit: "\<forall>i<length Xe. ye ! i = vecDot (Xe ! i) (muN post)"
  proof -
    have "ye ! i - (\<Sum>r<p. Xe ! i ! r * muN post ! r) = 0" if "i < length ye" for i
      using that fit rows len by (simp add: vecDot_sum)
    then have "(\<Sum>i<length ye. (ye ! i - (\<Sum>r<p. Xe ! i ! r * muN post ! r))\<^sup>2) = 0"
      by simp
    then have "penalised Lambda0 (X @ Xe) (y @ ye) mu0 p ?m = penalised Lambda0 X y mu0 p ?m"
      unfolding app by simp
    moreover have "penalised Lambda0 (X @ Xe) (y @ ye) mu0 p ?m'
        \<le> penalised Lambda0 (X @ Xe) (y @ ye) mu0 p ?m"
      by (rule B'(2))
    ultimately have "bN post' \<le> bN post"
      unfolding B(1) B'(1) by simp
    with up show ?thesis by simp
  qed
qed

lemma spd_example: "spd 1 [[1]]"
  by (auto simp add: spd_def square_def qform_def zero_less_mult_iff neq_iff)

lemma contraction_example:
  "\<exists>post. bayesianRegression [[1]] [0] [0] [[1]] 1 1 = Inr (Some post) \<and> muN post = [0]"
proof -
  have i: "matInvert (matAdd [[1]] (XtX2 [[1]] (length ([0] :: vec)) (length (hd ([[1]] :: mat)))))
      = Some [[1 / 2]]"
    by (simp add: kernel_eval upt_conv_Cons)
  from bayesianRegression_Some [OF _ _ i, of "[0]" "1" "1"]
  obtain post where p: "bayesianRegression [[1]] [0] [0] [[1]] 1 1 = Inr (Some post)"
    and fm: "muN post = matVecMul [[1 / 2]]
          (map_idx (\<lambda>v j. v + Xty [[1]] [0] (length ([0] :: vec)) (length (hd ([[1]] :: mat))) ! j)
             (matVecMul [[1]] [0]))"
    by auto
  have "muN post = [0]"
    unfolding fm by (simp add: kernel_eval upt_conv_Cons)
  with p show ?thesis by blast
qed

section \<open>The scan visits the grid and keeps the valid fits\<close>

lemma candidateFit_Inr:
  assumes "temps \<noteq> []" and "length y \<le> length temps"
  shows "\<exists>po. candidateFit temps y modelType pri cp cp2 = Inr po"
proof -
  obtain X where X: "X = buildDesignMatrix temps modelType (Some cp) cp2" by simp
  have l: "length X = length temps"
    by (simp add: X buildDesignMatrix_def)
  with assms(1) obtain x0 xs where X0: "X = x0 # xs" by (cases X) auto
  obtain mu0 Lambda0 a0 b0 where P: "buildPriorParams pri (length x0) = (mu0, Lambda0, a0, b0)"
    by (cases "buildPriorParams pri (length x0)") auto
  have "\<not> length X < length y" using l assms(2) by simp
  then have "\<exists>po. bayesianRegression X y mu0 Lambda0 a0 b0 = Inr po"
    unfolding X0 by (auto simp add: bayesianRegression_def Let_def split: option.splits)
  then show ?thesis
    by (simp add: candidateFit_def X [symmetric] X0 P)
qed

lemma fitsAt_Cons:
  "fitsAt temps y modelType pri ((cp, cp2) # locs) =
     pushFit [] cp cp2 (case candidateFit temps y modelType pri cp cp2 of Inr po \<Rightarrow> po | Inl _ \<Rightarrow> None)
       @ fitsAt temps y modelType pri locs"
  by (simp add: fitsAt_def pushFit_def split: sum.splits option.splits)

lemma pushFit_append: "pushFit results cp cp2 po = results @ pushFit [] cp cp2 po"
  by (simp add: pushFit_def split: option.splits)

lemma scan3_grid:
  assumes "temps \<noteq> []" and "length y \<le> length temps" and "0 < cpStep"
  shows "scan3 temps y modelType pri cpStep hi results cp
     = Some (Inr (results @ fitsAt temps y modelType pri (map (\<lambda>cp. (cp, None)) (grid cp hi cpStep))))"
  using assms(3)
proof (induction cp hi cpStep arbitrary: results rule: grid.induct)
  case (1 cp hi step)
  show ?case
  proof (cases "cp \<le> hi")
    case False
    then show ?thesis
      by (subst scan3.simps) (simp add: grid.simps [of cp] fitsAt_def)
  next
    case True
    obtain po where po: "candidateFit temps y modelType pri cp None = Inr po"
      using candidateFit_Inr [OF assms(1,2)] by blast
    have "scan3 temps y modelType pri step hi results cp
        = scan3 temps y modelType pri step hi (pushFit results cp None po) (cp + step)"
      using True by (subst scan3.simps) (simp add: po)
    also have "\<dots> = Some (Inr (pushFit results cp None po
        @ fitsAt temps y modelType pri (map (\<lambda>cp. (cp, None)) (grid (cp + step) hi step))))"
      using "1.IH" [of "pushFit results cp None po"] True "1.prems" by simp
    finally show ?thesis
      using True "1.prems"
      by (simp add: grid.simps [of cp] fitsAt_Cons po pushFit_append [of results])
  qed
qed

lemma scanInner5_fits:
  assumes "temps \<noteq> []" and "length y \<le> length temps"
  shows "scanInner5 temps y pri cph results cpcs
     = Inr (results @ fitsAt temps y ''5P'' pri (map (\<lambda>cpc. (cph, Some cpc)) cpcs))"
proof (induction cpcs arbitrary: results)
  case Nil
  then show ?case by (simp add: fitsAt_def)
next
  case (Cons cpc cpcs)
  obtain po where po: "candidateFit temps y ''5P'' pri cph (Some cpc) = Inr po"
    using candidateFit_Inr [OF assms(1,2)] by blast
  show ?case
    by (simp add: po Cons.IH fitsAt_Cons pushFit_append [of results])
qed

lemma fitsAt_append:
  "fitsAt temps y modelType pri (xs @ ys) = fitsAt temps y modelType pri xs @ fitsAt temps y modelType pri ys"
  by (simp add: fitsAt_def)

lemma scanOuter5_fits:
  assumes "temps \<noteq> []" and "length y \<le> length temps"
  shows "scanOuter5 temps y pri tMax results cphs
     = Inr (results @ fitsAt temps y ''5P'' pri
          (concat (map (\<lambda>cph. map (\<lambda>cpc. (cph, Some cpc)) (grid (cph + 6) (tMax - 4) 1)) cphs)))"
proof (induction cphs arbitrary: results)
  case Nil
  then show ?case by (simp add: fitsAt_def)
next
  case (Cons cph cphs)
  show ?case
    by (simp add: scanInner5_fits [OF assms] Cons.IH fitsAt_append)
qed

lemma changePointPosterior_grid:
  assumes "temps \<noteq> []" and "length y \<le> length temps" and "0 < cpStep"
  shows "changePointPosterior temps y modelType pri (Some cpStep)
     = Some (Inr (normalize (fitsAt temps y modelType pri (searchGrid temps modelType cpStep))))"
  using assms
  by (auto simp add: changePointPosterior_def searchGrid_def Let_def scan3_grid scanOuter5_fits
      fitsAt_def normalize_def)


lemma reduce_idx_plus: "reduce_idx (\<lambda>a b _. a + b) 0 xs = (sum_list xs :: real)"
  by (simp add: reduce_idx_add sum_list_sum_nth lessThan_atLeast0)

text \<open>What \<open>normalize\<close> computes, without indices.\<close>

lemma normalize_map:
  assumes "raw \<noteq> []"
  shows "normalize raw =
     map (\<lambda>r. \<lparr> c_cp = c_cp r, c_cp2 = c_cp2 r, c_logML = c_logML r, c_post = c_post r,
                 c_posterior = exp (c_logML r - Max (set (map c_logML raw)))
                   / sum_list (map (\<lambda>r'. exp (c_logML r' - Max (set (map c_logML raw)))) raw) \<rparr>) raw"
  using assms
  by (intro nth_equalityI) (simp_all add: normalize_def Let_def reduce_idx_plus)

lemma normalize_Nil [simp]: "normalize [] = []"
  by (simp add: normalize_def)

lemma normalize_eq_Nil [simp]: "normalize raw = [] \<longleftrightarrow> raw = []"
  by (cases "raw = []") (simp_all add: normalize_map)





text \<open>The candidates at a list of locations are those whose fit is a posterior.\<close>

lemma fitsAt_locations:
  assumes "temps \<noteq> []" and "length y \<le> length temps"
  shows "map (\<lambda>r. (c_cp r, c_cp2 r)) (fitsAt temps y modelType pri locs)
     = filter (\<lambda>(cp, cp2). candidateFit temps y modelType pri cp cp2 \<noteq> Inr None) locs"
proof (induction locs)
  case Nil
  then show ?case by (simp add: fitsAt_def)
next
  case (Cons loc locs)
  obtain cp cp2 where loc: "loc = (cp, cp2)" by (cases loc)
  obtain po where po: "candidateFit temps y modelType pri cp cp2 = Inr po"
    using candidateFit_Inr [OF assms] by blast
  show ?case
    using Cons.IH by (cases po) (simp_all add: loc fitsAt_Cons po pushFit_def)
qed

lemma fitsAt_post:
  assumes "r \<in> set (fitsAt temps y modelType pri locs)"
  shows "(c_cp r, c_cp2 r) \<in> set locs
     \<and> candidateFit temps y modelType pri (c_cp r) (c_cp2 r) = Inr (Some (c_post r))
     \<and> c_logML r = logML (c_post r)"
  using assms by (auto simp add: fitsAt_def split: sum.splits option.splits)

lemma normalize_locations:
  "map (\<lambda>r. (c_cp r, c_cp2 r)) (normalize raw) = map (\<lambda>r. (c_cp r, c_cp2 r)) raw"
proof (cases "raw = []")
  case True
  then show ?thesis by simp
next
  case False
  show ?thesis unfolding normalize_map [OF False] by (simp add: comp_def)
qed

lemma normalize_fields:
  assumes "r \<in> set (normalize raw)"
  shows "\<exists>r'\<in>set raw. c_cp r = c_cp r' \<and> c_cp2 r = c_cp2 r' \<and> c_logML r = c_logML r'
     \<and> c_post r = c_post r'"
proof -
  from assms have ne: "raw \<noteq> []" by auto
  from assms obtain r' where "r' \<in> set raw" and "r = \<lparr> c_cp = c_cp r', c_cp2 = c_cp2 r',
      c_logML = c_logML r', c_post = c_post r',
      c_posterior = exp (c_logML r' - Max (set (map c_logML raw)))
        / sum_list (map (\<lambda>r'. exp (c_logML r' - Max (set (map c_logML raw)))) raw) \<rparr>"
    unfolding normalize_map [OF ne] by auto
  then show ?thesis by (intro bexI [of _ r']) simp_all
qed







lemma changePointPosterior_default:
  "changePointPosterior temps y modelType pri None
     = changePointPosterior temps y modelType pri (Some (1 / 2))"
  by (simp add: changePointPosterior_def)

lemma changePointPosterior_grid':
  assumes "temps \<noteq> []" and "length y \<le> length temps"
    and "0 < (case cpStepArg of None \<Rightarrow> 1 / 2 | Some s \<Rightarrow> s)"
  shows "changePointPosterior temps y modelType pri cpStepArg
     = Some (Inr (normalize (fitsAt temps y modelType pri
          (searchGrid temps modelType (case cpStepArg of None \<Rightarrow> 1 / 2 | Some s \<Rightarrow> s)))))"
proof (cases cpStepArg)
  case None
  show ?thesis
    unfolding None changePointPosterior_default option.case
    using assms(1,2) by (rule changePointPosterior_grid) simp
next
  case (Some s)
  show ?thesis
    unfolding Some option.case
    using assms unfolding Some option.case by (rule changePointPosterior_grid)
qed

lemma grid_example_3P: "searchGrid [0, 7] ''3PH'' 1 = [(3, None), (4, None)]"
  by (simp add: searchGrid_def grid.simps)

lemma grid_example_5P: "searchGrid [0, 14] ''5P'' 1 = [(4, Some 10)]"
  by (simp add: searchGrid_def grid.simps)

lemma fit_example_5P: "candidateFit [0, 14] [1, 2] ''5P'' (example_priors 0) 4 (Some 10) = Inr None"
proof -
  have X: "buildDesignMatrix [0, 14] ''5P'' (Some 4) (Some 10) = [[1, 4, 0], [1, 0, 4]]"
    by (simp add: buildDesignMatrix_def)
  have P: "buildPriorParams (example_priors 0) (Suc (Suc (Suc 0))) = ([0, 0, 0], [[0, 0, 0], [0, 0, 0], [0, 0, 0]], 1, 1)"
    by (simp add: buildPriorParams_def example_priors_def identityMatrix_def upt_conv_Cons)
  have "matInvert (matAdd [[0, 0, 0], [0, 0, 0], [0, 0, 0]]
      (XtX2 [[1, 4, 0], [1, 0, 4]] (length [1, 2 :: real]) (length (hd [[1, 4, 0], [1, 0, 4 :: real]])))) = None"
    by (simp add: kernel_eval upt_conv_Cons)
  with bayesianRegression_cases [of "[[1, 4, 0], [1, 0, 4]]" "[1, 2]"
      "[[0, 0, 0], [0, 0, 0], [0, 0, 0]]" "[0, 0, 0]" 1 1]
  have "bayesianRegression [[1, 4, 0], [1, 0, 4]] [1, 2] [0, 0, 0] [[0, 0, 0], [0, 0, 0], [0, 0, 0]] 1 1
      = Inr None"
    by simp
  then show ?thesis
    by (simp add: candidateFit_def X P)
qed

lemma fit_example_3P:
  "candidateFit [0, 7] [1, 2] ''3PH'' (example_priors 1) 3 None \<noteq> Inr None
   \<and> candidateFit [0, 7] [1, 2] ''3PH'' (example_priors 1) 4 None \<noteq> Inr None"
proof -
  have X: "buildDesignMatrix [0, 7] ''3PH'' (Some 3) None = [[1, 3], [1, 0]]"
    "buildDesignMatrix [0, 7] ''3PH'' (Some 4) None = [[1, 4], [1, 0]]"
    by (simp_all add: buildDesignMatrix_def)
  have P: "buildPriorParams (example_priors 1) (Suc (Suc 0)) = ([0, 0], [[1, 0], [0, 1]], 1, 1)"
    by (simp add: buildPriorParams_def example_priors_def identityMatrix_def upt_conv_Cons)
  have "matInvert (matAdd [[1, 0], [0, 1]]
      (XtX2 [[1, 3], [1, 0]] (length [1, 2 :: real]) (length (hd [[1, 3], [1, 0 :: real]])))) \<noteq> None"
    by (simp add: kernel_eval upt_conv_Cons)
  with bayesianRegression_cases [of "[[1, 3], [1, 0]]" "[1, 2]" "[[1, 0], [0, 1]]" "[0, 0]" 1 1]
  have a: "bayesianRegression [[1, 3], [1, 0]] [1, 2] [0, 0] [[1, 0], [0, 1]] 1 1 \<noteq> Inr None"
    by auto
  have "matInvert (matAdd [[1, 0], [0, 1]]
      (XtX2 [[1, 4], [1, 0]] (length [1, 2 :: real]) (length (hd [[1, 4], [1, 0 :: real]])))) \<noteq> None"
    by (simp add: kernel_eval upt_conv_Cons)
  with bayesianRegression_cases [of "[[1, 4], [1, 0]]" "[1, 2]" "[[1, 0], [0, 1]]" "[0, 0]" 1 1]
  have b: "bayesianRegression [[1, 4], [1, 0]] [1, 2] [0, 0] [[1, 0], [0, 1]] 1 1 \<noteq> Inr None"
    by auto
  show ?thesis
    using a b by (simp add: candidateFit_def X P)
qed


section \<open>The log marginal likelihood of a fit is finite\<close>














section \<open>The marginal summary\<close>

lemma strict_sorted_map_upt:
  assumes "\<And>i k. i < k \<Longrightarrow> k < n \<Longrightarrow> f i < (f k :: real)"
  shows "sorted_wrt (<) (map f [0..<n])"
  by (simp add: sorted_wrt_iff_nth_less assms)

lemma studentTPDF_pos: "0 < studentTPDF x nu mu scale"
  by (simp add: studentTPDF_def Let_def)

lemma bisect_bounds:
  assumes "lo \<le> hi"
  shows "lo \<le> bisect k p nu mu scale lo hi \<and> bisect k p nu mu scale lo hi \<le> hi"
  using assms
proof (induction k arbitrary: lo hi)
  case 0
  then show ?case by simp
next
  case (Suc k)
  have m: "lo \<le> (lo + hi) / 2" "(lo + hi) / 2 \<le> hi"
    using Suc.prems by simp_all
  show ?case
    using Suc.IH [OF m(1)] Suc.IH [OF m(2)] m by (auto simp add: Let_def)
qed

lemma parameterPosterior_keys:
  assumes "j < length (LambdaN_inv post)"
  shows "\<exists>obj. parameterPosterior post j nPointsArg = Inr obj
     \<and> map fst obj = [''points'', ''mean'', ''ci95'', ''ci80'', ''nu'', ''scale'']"
  using assms by (simp add: parameterPosterior_def Let_def)

lemma example_posterior_fields:
  "LambdaN_inv example_posterior = [[1]]" "muN example_posterior = [0]"
  "aN example_posterior = 1" "marginalVariance example_posterior 0 = 1"
  by (simp_all add: example_posterior_def marginalVariance_def)

section \<open>The sampler at given draws, and the summary of the samples\<close>

lemma drawNonzero_nz: "src pos \<noteq> 0 \<Longrightarrow> drawNonzero src pos = Some (src pos, pos + 1)"
  by (subst drawNonzero.simps) simp

lemma sampleNormal_nz:
  assumes "src pos \<noteq> 0" and "src (pos + 1) \<noteq> 0"
  shows "sampleNormal src pos
     = Some (sqrt (- 2 * ln (src pos)) * cos (2 * pi * src (pos + 1)), pos + 2)"
  using assms by (simp add: sampleNormal_def drawNonzero_nz)

lemma cos_quarter_turn: "cos (2 * pi * (1 / 4)) = 0"
proof -
  have "2 * pi * (1 / 4) = pi / 2" by simp
  then show ?thesis by (simp only: cos_pi_half)
qed

lemma sampleNormal_zero:
  assumes "src pos \<noteq> 0" and "src (pos + 1) = 1 / 4"
  shows "sampleNormal src pos = Some (0, pos + 2)"
proof -
  have "src (pos + 1) \<noteq> 0" using assms(2) by simp
  from sampleNormal_nz [OF assms(1) this] show ?thesis
    unfolding assms(2) cos_quarter_turn by simp
qed

lemma gammaInner_zero:
  assumes "src pos \<noteq> 0" and "src (pos + 1) = 1 / 4"
  shows "gammaInner src c pos = Some (0, 1, pos + 2)"
  by (subst gammaInner.simps) (simp add: sampleNormal_zero [OF assms])

lemma gammaLoop_zero:
  assumes "src pos \<noteq> 0" and "src (pos + 1) = 1 / 4" and "src (pos + 2) < 1"
  shows "gammaLoop src d c scale pos = Some (d * scale, pos + 3)"
  using assms(3) by (subst gammaLoop.simps) (simp add: gammaInner_zero [OF assms(1,2)])

lemma sampleInvGamma_zero:
  assumes "src pos \<noteq> 0" and "src (pos + 1) = 1 / 4" and "src (pos + 2) < 1" and "1 \<le> a"
  shows "sampleInvGamma src a b pos = Some (b / (a - 1 / 3), pos + 3)"
proof -
  have "sampleGamma src a 1 pos = Some ((a - 1 / 3) * 1, pos + 3)"
    using assms(4) by (subst sampleGamma.simps) (simp add: gammaLoop_zero [OF assms(1-3)])
  then show ?thesis by (simp add: sampleInvGamma_def)
qed

lemma chol_example: "cholesky (matScale [[1, 0], [0, 1]] 1) (length [100, 5 :: real]) = [[1, 0], [0, 1]]"
  by (simp add: cholesky_def cholEntry_def matScale_def upt_conv_Cons numeral_2_eq_2)

lemma mvn_example:
  assumes "drawNormals src (length [100, 5 :: real]) pos = Some ([z0, z1], pos')"
  shows "sampleMVN src [100, 5] (matScale [[1, 0], [0, 1]] 1) pos = Some ([100 + z0, 5 + z1], pos')"
  unfolding sampleMVN_def Let_def chol_example assms
  by (simp add: map_idx_def reduce_idx_def upt_conv_Cons)

lemma total_example:
  "totalSavings ''3PH'' (Some 50) None [\<lparr> temp = 40, actual = 100 \<rparr>] [b0, b1] = b0 + 10 * b1 - 100"
  by (simp add: totalSavings_def xStarAt_def vecDot_def reduce_idx_def upt_conv_Cons)

text \<open>One draw from the example posterior, given the inverse-gamma and the normal draws.\<close>

lemma drawSample_example:
  assumes g: "sampleInvGamma src (4 / 3) 1 pos = Some (1, pos1)"
    and z: "drawNormals src (length [100, 5 :: real]) pos1 = Some ([z0, z1], pos2)"
  shows "drawSample src sampler_posterior ''3PH'' (Some 50) None [\<lparr> temp = 40, actual = 100 \<rparr>] pos
     = Some (50 + z0 + 10 * z1, pos2)"
proof -
  have f: "aN sampler_posterior = 4 / 3" "bN sampler_posterior = 1"
    "muN sampler_posterior = [100, 5]" "LambdaN_inv sampler_posterior = [[1, 0], [0, 1]]"
    by (simp_all add: sampler_posterior_def)
  show ?thesis
    unfolding drawSample_def f g option.case prod.case mvn_example [OF z] total_example
    by simp
qed

lemma quarter_rng_apply: "quarter_rng pos = 1 / 4"
  by (simp add: quarter_rng_def)

lemma sampleNormal_quarter: "sampleNormal quarter_rng pos = Some (0, pos + 2)"
  by (rule sampleNormal_zero) (simp_all add: quarter_rng_apply)

lemma drawSample_quarter:
  "drawSample quarter_rng sampler_posterior ''3PH'' (Some 50) None [\<lparr> temp = 40, actual = 100 \<rparr>] pos
     = Some (50, pos + 7)"
proof -
  have g: "sampleInvGamma quarter_rng (4 / 3) 1 pos = Some (1, pos + 3)"
    using sampleInvGamma_zero [of quarter_rng pos "4 / 3" 1] by (simp add: quarter_rng_apply)
  have z: "drawNormals quarter_rng (length [100, 5 :: real]) (pos + 3) = Some ([0, 0], pos + 7)"
    by (simp add: sampleNormal_quarter numeral_2_eq_2)
  from drawSample_example [OF g z] show ?thesis by simp
qed

lemma summarize_one: "summarize [t] (Suc 0) = Inl TypeError"
  by (simp add: summarize_def Let_def binIndex_def)

lemma drawSamples_length:
  "drawSamples src post modelType cp1 cp2 reportingData k samples pos = Some (raw, pos')
     \<Longrightarrow> length raw = length samples + k"
  by (induction k arbitrary: samples pos) (auto split: option.splits)

text \<open>With one sample requested, a summary is never returned.\<close>

lemma savingsPosterior_one_sample:
  "savingsPosterior src pos post modelType cp1 cp2 reportingData (Some 1) \<noteq> Some (Inr res, pos')"
proof
  assume a: "savingsPosterior src pos post modelType cp1 cp2 reportingData (Some 1) = Some (Inr res, pos')"
  then obtain raw where d: "drawSamples src post modelType cp1 cp2 reportingData 1 [] pos = Some (raw, pos')"
    and s: "summarize raw 1 = Inr res"
    by (auto simp add: savingsPosterior_def split: option.splits)
  from drawSamples_length [OF d] have "length raw = 1" by simp
  then obtain t where "raw = [t]" by (cases raw) auto
  with s show False by (simp add: summarize_one)
qed

text \<open>Two draws with different totals, on a stream with one non-zero normal draw.\<close>

lemma two_rng_apply:
  "two_rng 10 = exp (- 1 / 2)" "two_rng 11 = 1 / 2"
  "pos \<noteq> 10 \<Longrightarrow> pos \<noteq> 11 \<Longrightarrow> two_rng pos = 1 / 4"
  by (simp_all add: two_rng_def)

lemma drawSamples_two:
  "drawSamples two_rng sampler_posterior ''3PH'' (Some 50) None [\<lparr> temp = 40, actual = 100 \<rparr>]
     2 [] 0 = Some ([50, 49], 14)"
proof -
  have g0: "sampleInvGamma two_rng (4 / 3) 1 0 = Some (1, 0 + 3)"
    using sampleInvGamma_zero [of two_rng 0 "4 / 3" 1] by (simp add: two_rng_apply)
  have n3: "sampleNormal two_rng 3 = Some (0, 3 + 2)"
    by (rule sampleNormal_zero) (simp_all add: two_rng_apply)
  have n5: "sampleNormal two_rng 5 = Some (0, 5 + 2)"
    by (rule sampleNormal_zero) (simp_all add: two_rng_apply)
  have z0: "drawNormals two_rng (length [100, 5 :: real]) (0 + 3) = Some ([0, 0], 7)"
    using n3 n5 by (simp add: numeral_2_eq_2)
  have s1: "drawSample two_rng sampler_posterior ''3PH'' (Some 50) None
      [\<lparr> temp = 40, actual = 100 \<rparr>] 0 = Some (50, 7)"
    using drawSample_example [OF g0 z0] by simp
  have g7: "sampleInvGamma two_rng (4 / 3) 1 7 = Some (1, 7 + 3)"
    using sampleInvGamma_zero [of two_rng 7 "4 / 3" 1] by (simp add: two_rng_apply)
  have n10: "sampleNormal two_rng 10 = Some (- 1, 12)"
  proof -
    have "sampleNormal two_rng 10
        = Some (sqrt (- 2 * ln (two_rng 10)) * cos (2 * pi * two_rng (10 + 1)), 10 + 2)"
      by (rule sampleNormal_nz) (simp_all add: two_rng_apply)
    then show ?thesis by (simp add: two_rng_apply)
  qed
  have n12: "sampleNormal two_rng 12 = Some (0, 12 + 2)"
    by (rule sampleNormal_zero) (simp_all add: two_rng_apply)
  have z7: "drawNormals two_rng (length [100, 5 :: real]) (7 + 3) = Some ([- 1, 0], 14)"
    using n10 n12 by (simp add: numeral_2_eq_2)
  have s2: "drawSample two_rng sampler_posterior ''3PH'' (Some 50) None
      [\<lparr> temp = 40, actual = 100 \<rparr>] 7 = Some (49, 14)"
    using drawSample_example [OF g7 z7] by simp
  show ?thesis
    by (simp add: numeral_2_eq_2 s1 s2)
qed

lemma fillBins_ok:
  assumes "0 < binWidth" and "\<forall>s\<in>set ss. sMin \<le> s" and "length bs = binCount" and "0 < binCount"
  shows "\<exists>bs'. fillBins sMin binWidth binCount bs ss = Inr bs' \<and> length bs' = binCount
     \<and> map bin_lo bs' = map bin_lo bs \<and> map bin_hi bs' = map bin_hi bs
     \<and> map bin_x bs' = map bin_x bs
     \<and> sum_list (map bin_count bs') = sum_list (map bin_count bs) + length ss"
  using assms(2,3)
proof (induction ss arbitrary: bs)
  case Nil
  then show ?case by simp
next
  case (Cons s ss)
  define idx where "idx = min \<lfloor>(s - sMin) / binWidth\<rfloor> (int binCount - 1)"
  have "0 \<le> (s - sMin) / binWidth"
    using Cons.prems(1) assms(1) by simp
  then have i0: "0 \<le> idx"
    using assms(4) by (simp add: idx_def)
  have i1: "idx < int (length bs)"
    using assms(4) Cons.prems(2) by (simp add: idx_def)
  define bs1 where "bs1 = bs[nat idx := (bs ! nat idx)\<lparr> bin_count := bin_count (bs ! nat idx) + 1 \<rparr>]"
  have n: "nat idx < length bs" using i0 i1 by simp
  have l1: "length bs1 = binCount" by (simp add: bs1_def Cons.prems(2))
  have f: "map bin_lo bs1 = map bin_lo bs" "map bin_hi bs1 = map bin_hi bs"
    "map bin_x bs1 = map bin_x bs"
    using n by (simp_all add: bs1_def map_update list_update_same_conv)
  have c: "sum_list (map bin_count bs1) = sum_list (map bin_count bs) + 1"
  proof -
    have "map bin_count bs1 = (map bin_count bs)[nat idx := bin_count (bs ! nat idx) + 1]"
      by (simp add: bs1_def map_update)
    then show ?thesis
      using n by (simp add: sum_list_update)
  qed
  from Cons.IH [of bs1] Cons.prems(1) l1
  obtain bs' where r: "fillBins sMin binWidth binCount bs1 ss = Inr bs'"
    and "length bs' = binCount" and "map bin_lo bs' = map bin_lo bs1"
    and "map bin_hi bs' = map bin_hi bs1" and "map bin_x bs' = map bin_x bs1"
    and "sum_list (map bin_count bs') = sum_list (map bin_count bs1) + length ss"
    by auto
  moreover have "fillBins sMin binWidth binCount bs (s # ss) = fillBins sMin binWidth binCount bs1 ss"
    using assms(1) i0 i1 by (simp add: binIndex_def idx_def [symmetric] bs1_def)
  ultimately show ?case
    using f c by simp
qed

lemma emptyBins_fields:
  "length (emptyBins sMin w k) = k"
  "i < k \<Longrightarrow> bin_lo (emptyBins sMin w k ! i) = sMin + real i * w"
  "i < k \<Longrightarrow> bin_hi (emptyBins sMin w k ! i) = sMin + (real i + 1) * w"
  "i < k \<Longrightarrow> bin_x (emptyBins sMin w k ! i) = sMin + (real i + 1 / 2) * w"
  "sum_list (map bin_count (emptyBins sMin w k)) = 0"
  by (simp_all add: emptyBins_def comp_def del: upt_Suc)

lemma floor_fraction_less:
  assumes "0 < (n::nat)" and "0 \<le> q" and "q < 1"
  shows "nat \<lfloor>real n * q\<rfloor> < n"
proof -
  have "real n * q < real n"
    using assms by simp
  then have "\<lfloor>real n * q\<rfloor> < int n"
    by (simp add: floor_less_iff)
  moreover have "0 \<le> \<lfloor>real n * q\<rfloor>"
    using assms by simp
  ultimately show ?thesis by (simp only: nat_less_iff)
qed

lemma sum_list_insort: "sum_list (insort x xs) = x + (sum_list xs :: real)"
  by (induction xs) simp_all

lemma sum_list_sort: "sum_list (sort xs) = (sum_list xs :: real)"
  by (induction xs) (simp_all add: sum_list_insort)

lemma summarize_unfold:
  "summarize raw n =
     (case fillBins (sort raw ! 0) ((sort raw ! (n - 1) - sort raw ! 0) / real (50 :: nat)) 50
             (emptyBins (sort raw ! 0) ((sort raw ! (n - 1) - sort raw ! 0) / real (50 :: nat)) 50)
             (sort raw) of
        Inl e \<Rightarrow> Inl e
      | Inr counted \<Rightarrow>
          Inr \<lparr> s_samples = sort raw,
                s_mean = reduce_idx (\<lambda>a b _. a + b) 0 (sort raw) / real n,
                s_median = sort raw ! nat \<lfloor>real n * 0.5\<rfloor>,
                s_ci95 = (sort raw ! nat \<lfloor>real n * 0.025\<rfloor>, sort raw ! nat \<lfloor>real n * 0.975\<rfloor>),
                s_ci80 = (sort raw ! nat \<lfloor>real n * 0.10\<rfloor>, sort raw ! nat \<lfloor>real n * 0.90\<rfloor>),
                s_bins = map (\<lambda>b. b\<lparr> bin_density := real (bin_count b)
                                / (real n * ((sort raw ! (n - 1) - sort raw ! 0) / real (50 :: nat))) \<rparr>)
                           counted,
                s_maxCount = Max (set (map bin_count counted)) \<rparr>)"
  unfolding summarize_def Let_def by (rule refl)

lemma summarize_ok:
  assumes n: "0 < n" and len: "length raw = n" and range: "sort raw ! 0 < sort raw ! (n - 1)"
  shows "\<exists>res. summarize raw n = Inr res
     \<and> s_samples res = sort raw \<and> length (s_samples res) = n \<and> sorted (s_samples res)
     \<and> s_mean res = sum_list raw / real n
     \<and> s_median res = s_samples res ! nat \<lfloor>real n * 0.5\<rfloor>
     \<and> s_ci95 res = (s_samples res ! nat \<lfloor>real n * 0.025\<rfloor>, s_samples res ! nat \<lfloor>real n * 0.975\<rfloor>)
     \<and> s_ci80 res = (s_samples res ! nat \<lfloor>real n * 0.10\<rfloor>, s_samples res ! nat \<lfloor>real n * 0.90\<rfloor>)
     \<and> nat \<lfloor>real n * 0.975\<rfloor> < n
     \<and> length (s_bins res) = 50
     \<and> (\<forall>i<50. bin_lo (s_bins res ! i)
              = sort raw ! 0 + real i * ((sort raw ! (n - 1) - sort raw ! 0) / real (50 :: nat))
            \<and> bin_hi (s_bins res ! i)
              = sort raw ! 0 + (real i + 1) * ((sort raw ! (n - 1) - sort raw ! 0) / real (50 :: nat))
            \<and> bin_x (s_bins res ! i)
              = sort raw ! 0 + (real i + 1 / 2) * ((sort raw ! (n - 1) - sort raw ! 0) / real (50 :: nat)))
     \<and> bin_lo (s_bins res ! 0) = sort raw ! 0
     \<and> bin_hi (s_bins res ! 49) = sort raw ! (n - 1)
     \<and> sum_list (map bin_count (s_bins res)) = n"
proof -
  let ?S = "sort raw"
  let ?m = "?S ! 0"
  let ?W = "(?S ! (n - 1) - ?m) / real (50 :: nat)"
  have ls: "length ?S = n" by (simp add: len)
  have srt: "sorted ?S" by simp
  have w: "0 < ?W" using range by simp
  have ge: "\<forall>s\<in>set ?S. ?m \<le> s"
  proof
    fix s assume "s \<in> set ?S"
    then obtain i where "i < length ?S" "s = ?S ! i"
      unfolding in_set_conv_nth by blast
    then show "?m \<le> s"
      using srt by (simp add: sorted_nth_mono)
  qed
  have le: "length (emptyBins ?m ?W 50) = 50" by (rule emptyBins_fields(1))
  from fillBins_ok [OF w ge le]
  obtain counted where fb: "fillBins ?m ?W 50 (emptyBins ?m ?W 50) ?S = Inr counted"
    and lc: "length counted = 50"
    and flo: "map bin_lo counted = map bin_lo (emptyBins ?m ?W 50)"
    and fhi: "map bin_hi counted = map bin_hi (emptyBins ?m ?W 50)"
    and fx: "map bin_x counted = map bin_x (emptyBins ?m ?W 50)"
    and cnt: "sum_list (map bin_count counted) = n"
    by (auto simp add: emptyBins_fields(5) len)
  let ?bs = "map (\<lambda>b. b\<lparr> bin_density := real (bin_count b) / (real n * ?W) \<rparr>) counted"
  let ?res = "\<lparr> s_samples = ?S,
      s_mean = reduce_idx (\<lambda>a b _. a + b) 0 ?S / real n,
      s_median = ?S ! nat \<lfloor>real n * 0.5\<rfloor>,
      s_ci95 = (?S ! nat \<lfloor>real n * 0.025\<rfloor>, ?S ! nat \<lfloor>real n * 0.975\<rfloor>),
      s_ci80 = (?S ! nat \<lfloor>real n * 0.10\<rfloor>, ?S ! nat \<lfloor>real n * 0.90\<rfloor>),
      s_bins = ?bs, s_maxCount = Max (set (map bin_count counted)) \<rparr>"
  have r: "summarize raw n = Inr ?res"
    by (simp only: summarize_unfold fb sum.case)
  have lb: "length ?bs = 50" by (simp add: lc)
  have nth_lo: "bin_lo (?bs ! i) = ?m + real i * ?W" if "i < 50" for i
  proof -
    have "bin_lo (?bs ! i) = map bin_lo counted ! i"
      using that lc by simp
    then show ?thesis using that unfolding flo by (simp add: emptyBins_fields)
  qed
  have nth_hi: "bin_hi (?bs ! i) = ?m + (real i + 1) * ?W" if "i < 50" for i
  proof -
    have "bin_hi (?bs ! i) = map bin_hi counted ! i"
      using that lc by simp
    then show ?thesis using that unfolding fhi by (simp add: emptyBins_fields)
  qed
  have nth_x: "bin_x (?bs ! i) = ?m + (real i + 1 / 2) * ?W" if "i < 50" for i
  proof -
    have "bin_x (?bs ! i) = map bin_x counted ! i"
      using that lc by simp
    then show ?thesis using that unfolding fx by (simp add: emptyBins_fields)
  qed
  have bot: "bin_lo (?bs ! 0) = ?m"
  proof -
    have "bin_lo (?bs ! 0) = ?m + real 0 * ?W" by (rule nth_lo) simp
    then show ?thesis by simp
  qed
  have top: "bin_hi (?bs ! 49) = ?S ! (n - 1)"
  proof -
    have "bin_hi (?bs ! 49) = ?m + (real 49 + 1) * ?W" by (rule nth_hi) simp
    also have "\<dots> = ?S ! (n - 1)" by (simp add: field_simps)
    finally show ?thesis .
  qed
  have cb: "sum_list (map bin_count ?bs) = n"
    by (simp add: comp_def cnt)
  have mean: "reduce_idx (\<lambda>a b _. a + b) 0 ?S / real n = sum_list raw / real n"
  proof -
    have "sum_list ?S = sum_list raw"
      by (rule sum_list_sort)
    then show ?thesis by (simp add: reduce_idx_plus)
  qed
  have idx: "nat \<lfloor>real n * 0.975\<rfloor> < n"
    using n by (intro floor_fraction_less) simp_all
  define res where "res = ?res"
  have f: "s_samples res = ?S"
    "s_mean res = reduce_idx (\<lambda>a b _. a + b) 0 ?S / real n"
    "s_median res = ?S ! nat \<lfloor>real n * 0.5\<rfloor>"
    "s_ci95 res = (?S ! nat \<lfloor>real n * 0.025\<rfloor>, ?S ! nat \<lfloor>real n * 0.975\<rfloor>)"
    "s_ci80 res = (?S ! nat \<lfloor>real n * 0.10\<rfloor>, ?S ! nat \<lfloor>real n * 0.90\<rfloor>)"
    "s_bins res = ?bs"
    unfolding res_def savings.simps by (rule refl)+
  have c0: "summarize raw n = Inr res"
    unfolding res_def by (rule r)
  have cbins: "\<forall>i<50. bin_lo (?bs ! i) = ?m + real i * ?W
            \<and> bin_hi (?bs ! i) = ?m + (real i + 1) * ?W
            \<and> bin_x (?bs ! i) = ?m + (real i + 1 / 2) * ?W"
  proof (intro allI impI conjI)
    fix i :: nat assume i: "i < 50"
    show "bin_lo (?bs ! i) = ?m + real i * ?W" using i by (rule nth_lo)
    show "bin_hi (?bs ! i) = ?m + (real i + 1) * ?W" using i by (rule nth_hi)
    show "bin_x (?bs ! i) = ?m + (real i + 1 / 2) * ?W" using i by (rule nth_x)
  qed
  show ?thesis
  proof (rule exI [of _ res], unfold f, intro conjI)
    show "summarize raw n = Inr res" by (rule c0)
    show "?S = ?S" by (rule refl)
    show "length ?S = n" by (rule ls)
    show "sorted ?S" by (rule srt)
    show "reduce_idx (\<lambda>a b _. a + b) 0 ?S / real n = sum_list raw / real n" by (rule mean)
    show "?S ! nat \<lfloor>real n * 0.5\<rfloor> = ?S ! nat \<lfloor>real n * 0.5\<rfloor>" by (rule refl)
    show "(?S ! nat \<lfloor>real n * 0.025\<rfloor>, ?S ! nat \<lfloor>real n * 0.975\<rfloor>)
        = (?S ! nat \<lfloor>real n * 0.025\<rfloor>, ?S ! nat \<lfloor>real n * 0.975\<rfloor>)" by (rule refl)
    show "(?S ! nat \<lfloor>real n * 0.10\<rfloor>, ?S ! nat \<lfloor>real n * 0.90\<rfloor>)
        = (?S ! nat \<lfloor>real n * 0.10\<rfloor>, ?S ! nat \<lfloor>real n * 0.90\<rfloor>)" by (rule refl)
    show "nat \<lfloor>real n * 0.975\<rfloor> < n" by (rule idx)
    show "length ?bs = 50" by (rule lb)
    show "\<forall>i<50. bin_lo (?bs ! i) = ?m + real i * ?W
            \<and> bin_hi (?bs ! i) = ?m + (real i + 1) * ?W
            \<and> bin_x (?bs ! i) = ?m + (real i + 1 / 2) * ?W" by (rule cbins)
    show "bin_lo (?bs ! 0) = ?m" by (rule bot)
    show "bin_hi (?bs ! 49) = ?S ! (n - 1)" by (rule top)
    show "sum_list (map bin_count ?bs) = n" by (rule cb)
  qed
qed

lemma savingsPosterior_summary:
  assumes "0 < n"
    and "drawSamples src post modelType cp1 cp2 reportingData n [] pos = Some (raw, pos')"
    and "sort raw ! 0 < sort raw ! (n - 1)"
  shows "\<exists>res. savingsPosterior src pos post modelType cp1 cp2 reportingData (Some n)
         = Some (Inr res, pos')
     \<and> s_samples res = sort raw \<and> length (s_samples res) = n \<and> sorted (s_samples res)
     \<and> s_mean res = sum_list raw / real n
     \<and> s_median res = s_samples res ! nat \<lfloor>real n * 0.5\<rfloor>
     \<and> s_ci95 res = (s_samples res ! nat \<lfloor>real n * 0.025\<rfloor>, s_samples res ! nat \<lfloor>real n * 0.975\<rfloor>)
     \<and> s_ci80 res = (s_samples res ! nat \<lfloor>real n * 0.10\<rfloor>, s_samples res ! nat \<lfloor>real n * 0.90\<rfloor>)
     \<and> nat \<lfloor>real n * 0.975\<rfloor> < n
     \<and> length (s_bins res) = 50
     \<and> (\<forall>i<50. bin_lo (s_bins res ! i)
              = sort raw ! 0 + real i * ((sort raw ! (n - 1) - sort raw ! 0) / real (50 :: nat))
            \<and> bin_hi (s_bins res ! i)
              = sort raw ! 0 + (real i + 1) * ((sort raw ! (n - 1) - sort raw ! 0) / real (50 :: nat))
            \<and> bin_x (s_bins res ! i)
              = sort raw ! 0 + (real i + 1 / 2) * ((sort raw ! (n - 1) - sort raw ! 0) / real (50 :: nat)))
     \<and> bin_lo (s_bins res ! 0) = sort raw ! 0
     \<and> bin_hi (s_bins res ! 49) = sort raw ! (n - 1)
     \<and> sum_list (map bin_count (s_bins res)) = n"
proof -
  have len: "length raw = n"
    using drawSamples_length [OF assms(2)] by simp
  from summarize_ok [OF assms(1) len assms(3)] obtain res where
    R: "summarize raw n = Inr res
     \<and> s_samples res = sort raw \<and> length (s_samples res) = n \<and> sorted (s_samples res)
     \<and> s_mean res = sum_list raw / real n
     \<and> s_median res = s_samples res ! nat \<lfloor>real n * 0.5\<rfloor>
     \<and> s_ci95 res = (s_samples res ! nat \<lfloor>real n * 0.025\<rfloor>, s_samples res ! nat \<lfloor>real n * 0.975\<rfloor>)
     \<and> s_ci80 res = (s_samples res ! nat \<lfloor>real n * 0.10\<rfloor>, s_samples res ! nat \<lfloor>real n * 0.90\<rfloor>)
     \<and> nat \<lfloor>real n * 0.975\<rfloor> < n
     \<and> length (s_bins res) = 50
     \<and> (\<forall>i<50. bin_lo (s_bins res ! i)
              = sort raw ! 0 + real i * ((sort raw ! (n - 1) - sort raw ! 0) / real (50 :: nat))
            \<and> bin_hi (s_bins res ! i)
              = sort raw ! 0 + (real i + 1) * ((sort raw ! (n - 1) - sort raw ! 0) / real (50 :: nat))
            \<and> bin_x (s_bins res ! i)
              = sort raw ! 0 + (real i + 1 / 2) * ((sort raw ! (n - 1) - sort raw ! 0) / real (50 :: nat)))
     \<and> bin_lo (s_bins res ! 0) = sort raw ! 0
     \<and> bin_hi (s_bins res ! 49) = sort raw ! (n - 1)
     \<and> sum_list (map bin_count (s_bins res)) = n" ..
  have "savingsPosterior src pos post modelType cp1 cp2 reportingData (Some n) = Some (Inr res, pos')"
    using conjunct1 [OF R] by (simp add: savingsPosterior_def assms(2))
  then show ?thesis
    using conjunct2 [OF R] by (intro exI [of _ res]) (rule conjI)
qed


text \<open>The hypotheses of the summary lemma hold on the two-draw example.\<close>

lemma savingsPosterior_summary_example:
  "\<exists>res. savingsPosterior two_rng 0 sampler_posterior ''3PH'' (Some 50) None
       [\<lparr> temp = 40, actual = 100 \<rparr>] (Some 2) = Some (Inr res, 14)
     \<and> s_samples res = [49, 50] \<and> s_median res = 50 \<and> s_ci95 res = (49, 50)
     \<and> length (s_bins res) = 50
     \<and> bin_lo (s_bins res ! 0) = 49 \<and> bin_hi (s_bins res ! 49) = 50"
proof -
  have s: "sort [50, 49 :: real] = [49, 50]" by simp
  have r: "sort [50, 49 :: real] ! 0 < sort [50, 49 :: real] ! (2 - 1)"
    unfolding s by simp
  from savingsPosterior_summary [OF _ drawSamples_two r]
  obtain res where R: "savingsPosterior two_rng 0 sampler_posterior ''3PH'' (Some 50) None
       [\<lparr> temp = 40, actual = 100 \<rparr>] (Some 2) = Some (Inr res, 14)"
    and "s_samples res = sort [50, 49]"
    and "s_median res = s_samples res ! nat \<lfloor>real (2 :: nat) * 0.5\<rfloor>"
    and "s_ci95 res = (s_samples res ! nat \<lfloor>real (2 :: nat) * 0.025\<rfloor>,
                       s_samples res ! nat \<lfloor>real (2 :: nat) * 0.975\<rfloor>)"
    and "length (s_bins res) = 50"
    and "bin_lo (s_bins res ! 0) = sort [50, 49] ! 0"
    and "bin_hi (s_bins res ! 49) = sort [50, 49] ! (2 - 1)"
    by auto
  then show ?thesis
    unfolding s by (intro exI [of _ res]) simp
qed

section \<open>The claims\<close>

text \<open>
  Claim C1, as amended. For every design matrix \<open>X\<close> (\<open>n\<close> rows, \<open>p\<close> columns), response
  \<open>y\<close> of length \<open>n\<close>, prior mean, prior precision, shape \<open>a0\<close> and scale \<open>b0\<close> for which
  \<open>matInvert\<close> does not report \<open>LambdaN = Lambda0 + X\<^sup>T X\<close> singular, \<open>bayesianRegression\<close>
  returns the Normal-Inverse-Gamma update: \<open>LambdaN\<close> is that sum; \<open>LambdaN_inv\<close> is its
  two-sided inverse; \<open>muN = LambdaN_inv (Lambda0 mu0 + X\<^sup>T y)\<close>, which solves
  \<open>LambdaN muN = Lambda0 mu0 + X\<^sup>T y\<close>; \<open>aN = a0 + n/2\<close>;
  \<open>bN = b0 + (y\<^sup>T y + mu0\<^sup>T Lambda0 mu0 - muN\<^sup>T LambdaN muN) / 2\<close>; and \<open>logML\<close> is the stated
  sum, with the logarithm of the absolute value of \<open>matDet\<close> and the program's \<open>logGamma\<close>.
\<close>

theorem bayesianRegression_NIG_update:
  assumes shapes: "regression_shapes X y mu0 Lambda0 p"
    and inv: "matInvert (matAdd Lambda0 (XtX2 X (length y) p)) \<noteq> None"
  shows "\<exists>post. bayesianRegression X y mu0 Lambda0 a0 b0 = Inr (Some post)
     \<and> square p (LambdaN post)
     \<and> (\<forall>j<p. \<forall>k<p. LambdaN post ! j ! k
            = Lambda0 ! j ! k + (\<Sum>i<length y. X ! i ! j * X ! i ! k))
     \<and> square p (LambdaN_inv post)
     \<and> matMul (LambdaN_inv post) (LambdaN post) = Inr (identityMatrix p)
     \<and> matMul (LambdaN post) (LambdaN_inv post) = Inr (identityMatrix p)
     \<and> length (muN post) = p
     \<and> (\<forall>j<p. muN post ! j
            = (\<Sum>k<p. LambdaN_inv post ! j ! k
                 * ((\<Sum>l<p. Lambda0 ! k ! l * mu0 ! l) + (\<Sum>i<length y. X ! i ! k * y ! i))))
     \<and> (\<forall>j<p. (\<Sum>k<p. LambdaN post ! j ! k * muN post ! k)
            = (\<Sum>l<p. Lambda0 ! j ! l * mu0 ! l) + (\<Sum>i<length y. X ! i ! j * y ! i))
     \<and> aN post = a0 + real (length y) / 2
     \<and> bN post = b0 + 1 / 2 * ((\<Sum>i<length y. y ! i * y ! i)
            + (\<Sum>j<p. mu0 ! j * (\<Sum>k<p. Lambda0 ! j ! k * mu0 ! k))
            - (\<Sum>j<p. muN post ! j * (\<Sum>k<p. LambdaN post ! j ! k * muN post ! k)))
     \<and> logML post = - real (length y) / 2 * ln (2 * pi)
            + 1 / 2 * ln \<bar>matDet Lambda0\<bar> - 1 / 2 * ln \<bar>matDet (LambdaN post)\<bar>
            + a0 * ln b0 - aN post * ln (bN post)
            + fin (logGamma (aN post)) - fin (logGamma a0)"
proof -
  from shapes have Xne: "X \<noteq> []" and pos: "0 < p" and ly: "length y = length X"
    and lmu: "length mu0 = p" and sq0: "square p Lambda0"
    and rows: "\<And>r. r < length X \<Longrightarrow> length (X ! r) = p"
    by (simp_all add: regression_shapes_def)
  from Xne rows [of 0] have p: "length (hd X) = p"
    by (cases X) simp_all
  define LN where "LN = matAdd Lambda0 (XtX2 X (length y) p)"
  from inv obtain Linv where Linv: "matInvert LN = Some Linv"
    by (auto simp add: LN_def)
  define s where "s = (\<lambda>k. (\<Sum>l<p. Lambda0 ! k ! l * mu0 ! l) + (\<Sum>i<length y. X ! i ! k * y ! i))"
  from sq0 have l0: "length Lambda0 = p" and r0: "\<And>r. r < p \<Longrightarrow> length (Lambda0 ! r) = p"
    by (simp_all add: square_def)
  have sqN: "square p LN"
    unfolding LN_def using sq0 by (rule square_matAdd)
  then have lN: "length LN = p" and rN: "\<And>r. r < p \<Longrightarrow> length (LN ! r) = p"
    by (simp_all add: square_def)
  from matInvert_inverse [OF sqN pos Linv]
  have sqI: "square p Linv" and left: "matMul Linv LN = Inr (identityMatrix p)"
    and right: "matMul LN Linv = Inr (identityMatrix p)"
    by simp_all
  from sqI have lI: "length Linv = p" and rI: "\<And>r. r < p \<Longrightarrow> length (Linv ! r) = p"
    by (simp_all add: square_def)
  from bayesianRegression_Some [OF Xne, of y Lambda0 Linv mu0 a0 b0] Linv ly
  obtain post where res: "bayesianRegression X y mu0 Lambda0 a0 b0 = Inr (Some post)"
    and fLN: "LambdaN post = LN" and fLI: "LambdaN_inv post = Linv"
    and fmu: "muN post = matVecMul Linv
          (map_idx (\<lambda>v j. v + Xty X y (length y) p ! j) (matVecMul Lambda0 mu0))"
    and fa: "aN post = a0 + real (length y) / 2"
    and fb: "bN post = b0 + 1 / 2 * (vecDot y y + vecDot mu0 (matVecMul Lambda0 mu0)
          - vecDot (muN post) (matVecMul (LambdaN post) (muN post)))"
    and fl: "logML post = - real (length y) / 2 * ln (2 * pi)
          + 1 / 2 * ln \<bar>matDet Lambda0\<bar> - 1 / 2 * ln \<bar>matDet (LambdaN post)\<bar>
          + a0 * ln b0 - aN post * ln (bN post)
          + fin (logGamma (aN post)) - fin (logGamma a0)"
    by (auto simp add: p LN_def)
  have entries: "LN ! j ! k = Lambda0 ! j ! k + (\<Sum>i<length y. X ! i ! j * X ! i ! k)"
    if "j < p" "k < p" for j k
    using that by (simp add: LN_def matAdd_nth l0 r0 XtX2_nth)
  have lmuN: "length (muN post) = p"
    by (simp add: fmu lI)
  have sumv: "map_idx (\<lambda>v j. v + Xty X y (length y) p ! j) (matVecMul Lambda0 mu0) ! k = s k"
    if "k < p" for k
    using that by (simp add: l0 matVecMul_nth r0 Xty_nth s_def)
  have mu: "muN post ! j = (\<Sum>k<p. Linv ! j ! k * s k)" if "j < p" for j
    using that by (simp add: fmu matVecMul_nth lI rI sumv)
  have normal: "(\<Sum>k<p. LN ! j ! k * muN post ! k) = s j" if j: "j < p" for j
  proof -
    have "(\<Sum>k<p. LN ! j ! k * muN post ! k) = (\<Sum>k<p. \<Sum>l<p. LN ! j ! k * Linv ! k ! l * s l)"
      by (rule sum.cong) (simp_all add: mu sum_distrib_left mult.assoc)
    also have "\<dots> = (\<Sum>l<p. \<Sum>k<p. LN ! j ! k * Linv ! k ! l * s l)"
      by (rule sum.swap)
    also have "\<dots> = (\<Sum>l<p. (\<Sum>k<p. LN ! j ! k * Linv ! k ! l) * s l)"
      by (simp add: sum_distrib_right)
    also have "\<dots> = (\<Sum>l<p. (if j = l then 1 else 0) * s l)"
      by (rule sum.cong) (simp_all add: matMul_identityD [OF right sqI j])
    also have "\<dots> = s j"
      using j by (rule sum_delta_left)
    finally show ?thesis .
  qed
  have b: "bN post = b0 + 1 / 2 * ((\<Sum>i<length y. y ! i * y ! i)
            + (\<Sum>j<p. mu0 ! j * (\<Sum>k<p. Lambda0 ! j ! k * mu0 ! k))
            - (\<Sum>j<p. muN post ! j * (\<Sum>k<p. LN ! j ! k * muN post ! k)))"
  proof -
    have "vecDot mu0 (matVecMul Lambda0 mu0) = (\<Sum>j<p. mu0 ! j * (\<Sum>k<p. Lambda0 ! j ! k * mu0 ! k))"
      unfolding vecDot_sum lmu by (rule sum.cong) (simp_all add: matVecMul_nth l0 r0)
    moreover have "vecDot (muN post) (matVecMul LN (muN post))
        = (\<Sum>j<p. muN post ! j * (\<Sum>k<p. LN ! j ! k * muN post ! k))"
      unfolding vecDot_sum lmuN by (rule sum.cong) (simp_all add: matVecMul_nth lN rN)
    ultimately show ?thesis
      by (simp add: fb fLN vecDot_sum)
  qed
  show ?thesis
    using res sqN sqI left right lmuN fa fl entries mu normal b
    by (simp add: fLN fLI s_def)
qed

theorem bayesianRegression_NIG_update_witness:
  "regression_shapes [[1, 0], [1, 1]] [1, 2] [0, 0] [[1, 0], [0, 1]] 2
   \<and> matInvert (matAdd [[1, 0], [0, 1]] (XtX2 [[1, 0], [1, 1]] (length [1, 2 :: real]) 2)) \<noteq> None
   \<and> (\<exists>post. bayesianRegression [[1, 0], [1, 1]] [1, 2] [0, 0] [[1, 0], [0, 1]] 1 1
          = Inr (Some post)
        \<and> matMul (LambdaN_inv post) (LambdaN post) = Inr (identityMatrix 2)
        \<and> matMul (LambdaN post) (LambdaN_inv post) = Inr (identityMatrix 2)
        \<and> aN post = 2)"
proof -
  have inv: "matInvert (matAdd [[1, 0], [0, 1]] (XtX2 [[1, 0], [1, 1]] (length [1, 2 :: real]) 2)) \<noteq> None"
    by (simp add: kernel_eval upt_conv_Cons)
  from bayesianRegression_NIG_update [OF w_shapes inv, of 1 1]
  obtain post where "bayesianRegression [[1, 0], [1, 1]] [1, 2] [0, 0] [[1, 0], [0, 1]] 1 1
          = Inr (Some post)"
    and "matMul (LambdaN_inv post) (LambdaN post) = Inr (identityMatrix 2)"
    and "matMul (LambdaN post) (LambdaN_inv post) = Inr (identityMatrix 2)"
    and "aN post = 1 + real (length [1, 2 :: real]) / 2"
    by blast
  then have "\<exists>post. bayesianRegression [[1, 0], [1, 1]] [1, 2] [0, 0] [[1, 0], [0, 1]] 1 1
          = Inr (Some post)
        \<and> matMul (LambdaN_inv post) (LambdaN post) = Inr (identityMatrix 2)
        \<and> matMul (LambdaN post) (LambdaN_inv post) = Inr (identityMatrix 2)
        \<and> aN post = 2"
    by (intro exI [of _ post]) simp
  with w_shapes inv show ?thesis by blast
qed

text \<open>
  The claim as stated fails: with a prior precision of \<open>10\<^sup>-\<^sup>1\<^sup>5\<close> on the diagonal and a hinge
  column that is all zero, \<open>LambdaN\<close> has the inverse shown, and the call returns \<^verbatim>\<open>null\<close>,
  because the second pivot is below the tolerance.
\<close>

theorem bayesianRegression_invertible_counterexample:
  "matMul [[1 / (2 + 1 / 10 ^ 15), 0], [0, 10 ^ 15]]
      (matAdd [[1 / 10 ^ 15, 0], [0, 1 / 10 ^ 15]] (XtX2 [[1, 0], [1, 0]] 2 2))
     = Inr (identityMatrix 2)
   \<and> matMul (matAdd [[1 / 10 ^ 15, 0], [0, 1 / 10 ^ 15]] (XtX2 [[1, 0], [1, 0]] 2 2))
      [[1 / (2 + 1 / 10 ^ 15), 0], [0, 10 ^ 15]]
     = Inr (identityMatrix 2)
   \<and> bayesianRegression [[1, 0], [1, 0]] [1, 2] [0, 0]
        [[1 / 10 ^ 15, 0], [0, 1 / 10 ^ 15]] 1 1 = Inr None"
proof -
  have "matInvert (matAdd [[1 / 10 ^ 15, 0], [0, 1 / 10 ^ 15]]
      (XtX2 [[1, 0], [1, 0]] (length [1, 2 :: real]) (length (hd [[1, 0], [1, 0 :: real]])))) = None"
    by (simp add: kernel_eval upt_conv_Cons)
  with bayesianRegression_cases [of "[[1, 0], [1, 0]]" "[1, 2]"
        "[[1 / 10 ^ 15, 0], [0, 1 / 10 ^ 15]]" "[0, 0]" 1 1]
  have "bayesianRegression [[1, 0], [1, 0]] [1, 2] [0, 0]
        [[1 / 10 ^ 15, 0], [0, 1 / 10 ^ 15]] 1 1 = Inr None"
    by simp
  moreover have "matMul [[1 / (2 + 1 / 10 ^ 15), 0], [0, 10 ^ 15]]
      (matAdd [[1 / 10 ^ 15, 0], [0, 1 / 10 ^ 15]] (XtX2 [[1, 0], [1, 0]] 2 2))
     = Inr (identityMatrix 2)"
    by (simp add: kernel_eval upt_conv_Cons)
  moreover have "matMul (matAdd [[1 / 10 ^ 15, 0], [0, 1 / 10 ^ 15]] (XtX2 [[1, 0], [1, 0]] 2 2))
      [[1 / (2 + 1 / 10 ^ 15), 0], [0, 10 ^ 15]]
     = Inr (identityMatrix 2)"
    by (simp add: kernel_eval upt_conv_Cons)
  ultimately show ?thesis by blast
qed



text \<open>
  Claim C3, as amended. On a non-empty \<open>X\<close> with at least as many rows as \<open>y\<close> has entries,
  \<open>bayesianRegression\<close> returns its failure value exactly when \<open>matInvert\<close> returns its
  no-inverse result on \<open>LambdaN\<close>, that is when the pivot chosen at some column has a
  magnitude below \<open>10\<^sup>-\<^sup>1\<^sup>4\<close>; a \<open>LambdaN\<close> with no inverse always fails. The inverse of
  \<open>X\<^sup>T X\<close> decides only the field \<open>betaOLS\<close>, which falls back to \<open>muN\<close>.
\<close>

theorem bayesianRegression_failure:
  fixes X Lambda0 :: mat and y mu0 :: vec and a0 b0 :: real and p :: nat
  assumes "X \<noteq> []" and "length y \<le> length X"
  defines "LN \<equiv> matAdd Lambda0 (XtX2 X (length y) (length (hd X)))"
  shows "(bayesianRegression X y mu0 Lambda0 a0 b0 = Inr None \<longleftrightarrow> matInvert LN = None)
     \<and> (matInvert LN = None \<longleftrightarrow>
          (\<exists>c aug. c < length LN \<and> invertLoop (length LN) (augment LN) [0..<c] = Some aug
             \<and> \<bar>swapRows aug c (findMaxRow aug (length LN) c) ! c ! c\<bar> < pivot_tol))
     \<and> (0 < p \<and> square p LN \<and> (\<nexists>B. matMul B LN = Inr (identityMatrix p))
          \<longrightarrow> bayesianRegression X y mu0 Lambda0 a0 b0 = Inr None)
     \<and> (matInvert LN \<noteq> None \<longrightarrow>
          (\<exists>post. bayesianRegression X y mu0 Lambda0 a0 b0 = Inr (Some post)
             \<and> betaOLS post =
                 (case matInvert (XtX2 X (length y) (length (hd X))) of
                    Some XtX_inv \<Rightarrow> matVecMul XtX_inv (Xty X y (length y) (length (hd X)))
                  | None \<Rightarrow> muN post)))"
proof -
  note c = bayesianRegression_cases [OF assms(1,2), of Lambda0 mu0 a0 b0, folded LN_def]
  have 1: "bayesianRegression X y mu0 Lambda0 a0 b0 = Inr None \<longleftrightarrow> matInvert LN = None"
    using c by (cases "matInvert LN") auto
  have 3: "bayesianRegression X y mu0 Lambda0 a0 b0 = Inr None"
    if "0 < p" "square p LN" "\<nexists>B. matMul B LN = Inr (identityMatrix p)"
    using matInvert_singular [OF that(2,1,3)] 1 by simp
  have 4: "\<exists>post. bayesianRegression X y mu0 Lambda0 a0 b0 = Inr (Some post)
             \<and> betaOLS post =
                 (case matInvert (XtX2 X (length y) (length (hd X))) of
                    Some XtX_inv \<Rightarrow> matVecMul XtX_inv (Xty X y (length y) (length (hd X)))
                  | None \<Rightarrow> muN post)" if "matInvert LN \<noteq> None"
  proof -
    from that obtain Linv where "matInvert LN = Some Linv" by auto
    from bayesianRegression_Some [OF assms(1,2) this [unfolded LN_def], of mu0 a0 b0]
    show ?thesis by auto
  qed
  show ?thesis using 1 3 4 matInvert_None_iff [of LN] by blast
qed

theorem bayesianRegression_failure_witness:
  "[[1, 0], [1, 0]] \<noteq> ([] :: mat) \<and> length [1, 2 :: real] \<le> length [[1, 0], [1, 0 :: real]]
   \<and> square 2 [[2, 0], [0, 0]] \<and> (\<nexists>B. matMul B [[2, 0], [0, 0]] = Inr (identityMatrix 2))
   \<and> bayesianRegression [[1, 0], [1, 0]] [1, 2] [0, 0] [[0, 0], [0, 0]] 1 1 = Inr None
   \<and> (\<exists>post. bayesianRegression [[1, 0], [1, 0]] [1, 2] [0, 0] [[1, 0], [0, 1]] 1 1
          = Inr (Some post) \<and> betaOLS post = muN post)"
proof -
  let ?X = "[[1, 0], [1, 0]] :: mat" and ?y = "[1, 2] :: vec"
  let ?L = "matAdd [[0, 0], [0, 0]] (XtX2 ?X (length ?y) (length (hd ?X)))"
  have L: "?L = [[2, 0], [0, 0]]"
    by (simp add: kernel_eval upt_conv_Cons)
  have sq: "square 2 [[2, 0], [0, 0 :: real]]"
    by (simp add: square_def less_Suc_eq numeral_2_eq_2)
  have no: "\<nexists>B. matMul B [[2, 0], [0, 0]] = Inr (identityMatrix 2)"
  proof
    assume "\<exists>B. matMul B [[2, 0], [0, 0]] = Inr (identityMatrix 2)"
    then obtain B where "matMul B [[2, 0], [0, 0]] = Inr (identityMatrix 2)" ..
    from matMul_identityD [OF this sq, of 1 1] show False
      by (simp add: numeral_2_eq_2)
  qed
  have ne: "?X \<noteq> []" and le: "length ?y \<le> length ?X" by simp_all
  note th0 = bayesianRegression_failure [OF ne le, where ?Lambda0.0 = "[[0, 0], [0, 0]]" and p = 2
      and ?mu0.0 = "[0, 0]" and ?a0.0 = 1 and ?b0.0 = 1]
  have a: "bayesianRegression ?X ?y [0, 0] [[0, 0], [0, 0]] 1 1 = Inr None"
  proof -
    have "0 < (2::nat) \<and> square 2 [[2, 0], [0, 0 :: real]]
        \<and> (\<nexists>B. matMul B [[2, 0], [0, 0]] = Inr (identityMatrix 2))"
      using sq no by simp
    with th0 [unfolded L] show ?thesis by blast
  qed
  note th1 = bayesianRegression_failure [OF ne le, where ?Lambda0.0 = "[[1, 0], [0, 1]]" and p = 2
      and ?mu0.0 = "[0, 0]" and ?a0.0 = 1 and ?b0.0 = 1]
  have b: "\<exists>post. bayesianRegression ?X ?y [0, 0] [[1, 0], [0, 1]] 1 1
          = Inr (Some post) \<and> betaOLS post = muN post"
    using th1 unfolding reg_example_inverse reg_example_XtX by simp
  show ?thesis using a b sq no by simp
qed

text \<open>
  The claim as stated fails: here \<open>X\<^sup>T X\<close> is singular and the call returns a posterior.
\<close>

theorem bayesianRegression_singular_XtX_counterexample:
  "matInvert (XtX2 [[1, 0], [1, 0]] 2 2) = None
   \<and> bayesianRegression [[1, 0], [1, 0]] [1, 2] [0, 0] [[1, 0], [0, 1]] 1 1 \<noteq> Inr None
   \<and> bayesianRegression [[1, 0], [1, 0]] [1, 2] [0, 0] [[1, 0], [0, 1]] 1 1 \<noteq> Inl TypeError
   \<and> (case bayesianRegression [[1, 0], [1, 0]] [1, 2] [0, 0] [[1, 0], [0, 1]] 1 1 of
        Inr (Some post) \<Rightarrow> muN post | _ \<Rightarrow> []) = [1, 0]"
proof -
  have s: "matInvert (XtX2 [[1, 0], [1, 0]] 2 2) = None"
    by (simp add: kernel_eval upt_conv_Cons)
  have m: "matVecMul [[1 / 3, 0], [0, 1]]
      (map_idx (\<lambda>v j. v + Xty [[1, 0], [1, 0]] [1, 2] (length [1, 2 :: real])
                           (length (hd [[1, 0], [1, 0 :: real]])) ! j)
         (matVecMul [[1, 0], [0, 1]] [0, 0])) = [1, 0]"
    by (simp add: kernel_eval upt_conv_Cons)
  from bayesianRegression_Some [OF _ _ reg_example_inverse, of "[0, 0]" 1 1]
  obtain post where "bayesianRegression [[1, 0], [1, 0]] [1, 2] [0, 0] [[1, 0], [0, 1]] 1 1
      = Inr (Some post)" and "muN post = [1, 0]"
    unfolding m by auto
  then show ?thesis using s by simp
qed

text \<open>
  Claim C4, as amended. For every posterior with a positive shape \<open>aN\<close> and every index \<open>j\<close>
  of a coefficient (an entry of \<open>muN\<close> and a diagonal entry of \<open>LambdaN_inv\<close>) whose variance
  factor \<open>(bN/aN) [LambdaN\<^sup>-\<^sup>1]\<^sub>j\<^sub>j\<close> is positive, \<open>parameterPosterior post j\<close> returns the Student-t
  marginal summary with \<open>nu = 2 aN > 0\<close>, location and mean \<open>muN[j]\<close>, scale
  \<open>sqrt ((bN/aN) [LambdaN\<^sup>-\<^sup>1]\<^sub>j\<^sub>j) > 0\<close>, a density curve of 200 points in strictly increasing
  order of abscissa from location minus 4 scales to location plus 4 scales, each with a
  positive density, and the 95 percent and 80 percent credible intervals, each the pair of
  bisection quantiles, which lie within 50 scales of the location. These are all its
  fields.
\<close>

theorem parameterPosterior_summary:
  assumes j: "j < length (LambdaN_inv post)" and jr: "j < length (LambdaN_inv post ! j)"
    and jm: "j < length (muN post)"
    and a: "0 < aN post" and var: "0 < marginalVariance post j"
  defines "nu \<equiv> 2 * aN post" and "mu \<equiv> muN post ! j"
    and "scale \<equiv> sqrt (marginalVariance post j)"
  shows "\<exists>pts. parameterPosterior post j None =
       Inr [(''points'', Curve pts), (''mean'', Num mu),
            (''ci95'', Interval (studentTQuantile 0.025 nu mu scale)
                                (studentTQuantile 0.975 nu mu scale)),
            (''ci80'', Interval (studentTQuantile 0.10 nu mu scale)
                                (studentTQuantile 0.90 nu mu scale)),
            (''nu'', Num nu), (''scale'', Num scale)]
     \<and> 0 < nu \<and> 0 < scale
     \<and> scale ^ 2 = bN post / aN post * LambdaN_inv post ! j ! j
     \<and> length pts = 200
     \<and> (\<forall>i<200. pts ! i = (curve_point post j i, studentTPDF (curve_point post j i) nu mu scale))
     \<and> sorted_wrt (<) (map fst pts)
     \<and> fst (pts ! 0) = mu - 4 * scale \<and> fst (pts ! 199) = mu + 4 * scale
     \<and> (\<forall>pt\<in>set pts. mu - 4 * scale \<le> fst pt \<and> fst pt \<le> mu + 4 * scale \<and> 0 < snd pt)
     \<and> (\<forall>p\<in>{0.025, 0.975, 0.10, 0.90}.
          (\<exists>q. studentTQuantile p nu mu scale = Fin q
             \<and> q = bisect 80 p nu mu scale (mu - 50 * scale) (mu + 50 * scale)
             \<and> mu - 50 * scale \<le> q \<and> q \<le> mu + 50 * scale))"
proof -
  define pts where "pts = map (\<lambda>i. (curve_point post j i,
      studentTPDF (curve_point post j i) nu mu scale)) [0..<200]"
  have s: "0 < scale"
    using var by (simp add: scale_def)
  have n: "0 < nu"
    using a by (simp add: nu_def)
  have sq: "scale ^ 2 = bN post / aN post * LambdaN_inv post ! j ! j"
    using var by (simp add: scale_def marginalVariance_def)
  have res: "parameterPosterior post j None =
       Inr [(''points'', Curve pts), (''mean'', Num mu),
            (''ci95'', Interval (studentTQuantile 0.025 nu mu scale)
                                (studentTQuantile 0.975 nu mu scale)),
            (''ci80'', Interval (studentTQuantile 0.10 nu mu scale)
                                (studentTQuantile 0.90 nu mu scale)),
            (''nu'', Num nu), (''scale'', Num scale)]"
    using j
    by (simp add: parameterPosterior_def Let_def pts_def curve_point_def nu_def mu_def scale_def
        del: upt_Suc)
  have len: "length pts = 200"
    by (simp add: pts_def)
  have nth: "pts ! i = (curve_point post j i, studentTPDF (curve_point post j i) nu mu scale)"
    if "i < 200" for i
    using that by (simp add: pts_def del: upt_Suc)
  have cp: "curve_point post j i = mu - 4 * scale + 8 * scale * real i / 199" for i
    by (simp add: curve_point_def mu_def scale_def)
  have smono: "curve_point post j i < curve_point post j k" if "i < k" for i k
  proof -
    have "scale * real i < scale * real k"
      using that s by simp
    then show ?thesis by (simp add: cp)
  qed
  have mono: "curve_point post j i \<le> curve_point post j k" if "i \<le> k" for i k
    using that smono [of i k] by (cases "i = k") simp_all
  have fsts: "map fst pts = map (curve_point post j) [0..<200]"
    by (simp add: pts_def comp_def del: upt_Suc)
  have sorted: "sorted_wrt (<) (map fst pts)"
    unfolding fsts by (rule strict_sorted_map_upt) (rule smono)
  have first: "fst (pts ! 0) = mu - 4 * scale"
    by (simp add: nth cp)
  have last: "fst (pts ! 199) = mu + 4 * scale"
    by (simp add: nth cp)
  have bounds: "mu - 4 * scale \<le> fst pt \<and> fst pt \<le> mu + 4 * scale \<and> 0 < snd pt"
    if "pt \<in> set pts" for pt
  proof -
    from that obtain i where i: "i < 200" and pt: "pt = pts ! i"
      by (auto simp add: in_set_conv_nth len)
    have "curve_point post j 0 \<le> curve_point post j i" by (rule mono) simp
    moreover have "curve_point post j i \<le> curve_point post j 199" using i by (intro mono) simp
    moreover have "0 < studentTPDF (curve_point post j i) nu mu scale"
      by (rule studentTPDF_pos)
    ultimately show ?thesis using i by (simp add: pt nth) (simp add: cp)
  qed
  have q: "\<exists>q. studentTQuantile p nu mu scale = Fin q
      \<and> q = bisect 80 p nu mu scale (mu - 50 * scale) (mu + 50 * scale)
      \<and> mu - 50 * scale \<le> q \<and> q \<le> mu + 50 * scale"
    if "0 < p" "p < 1" "p \<noteq> 1 / 2" for p
  proof -
    have "mu - 50 * scale \<le> mu + 50 * scale"
      using s by simp
    from bisect_bounds [OF this, of 80 p nu mu scale] that show ?thesis
      by (simp add: studentTQuantile_def)
  qed
  have qs: "\<forall>p\<in>{0.025, 0.975, 0.10, 0.90}.
      (\<exists>q. studentTQuantile p nu mu scale = Fin q
         \<and> q = bisect 80 p nu mu scale (mu - 50 * scale) (mu + 50 * scale)
         \<and> mu - 50 * scale \<le> q \<and> q \<le> mu + 50 * scale)"
  proof
    fix p :: real
    assume "p \<in> {0.025, 0.975, 0.10, 0.90}"
    then have "0 < p \<and> p < 1 \<and> p \<noteq> 1 / 2"
      by auto
    then show "\<exists>q. studentTQuantile p nu mu scale = Fin q
         \<and> q = bisect 80 p nu mu scale (mu - 50 * scale) (mu + 50 * scale)
         \<and> mu - 50 * scale \<le> q \<and> q \<le> mu + 50 * scale"
      using q [of p] by simp
  qed
  show ?thesis
    using res n s sq len nth sorted first last bounds qs
    by (intro exI [of _ pts]) simp
qed

theorem parameterPosterior_summary_witness:
  "0 < length (LambdaN_inv example_posterior) \<and> 0 < length (LambdaN_inv example_posterior ! 0)
   \<and> 0 < length (muN example_posterior)
   \<and> 0 < aN example_posterior \<and> 0 < marginalVariance example_posterior 0
   \<and> (\<exists>pts. parameterPosterior example_posterior 0 None =
         Inr [(''points'', Curve pts), (''mean'', Num 0),
              (''ci95'', Interval (studentTQuantile 0.025 2 0 1) (studentTQuantile 0.975 2 0 1)),
              (''ci80'', Interval (studentTQuantile 0.10 2 0 1) (studentTQuantile 0.90 2 0 1)),
              (''nu'', Num 2), (''scale'', Num 1)]
       \<and> length pts = 200 \<and> sorted_wrt (<) (map fst pts)
       \<and> fst (pts ! 0) = - 4 \<and> fst (pts ! 199) = 4)"
proof -
  have h: "0 < length (LambdaN_inv example_posterior)"
    "0 < length (LambdaN_inv example_posterior ! 0)"
    "0 < length (muN example_posterior)"
    "0 < aN example_posterior" "0 < marginalVariance example_posterior 0"
    by (simp_all add: example_posterior_fields)
  from parameterPosterior_summary [OF h] obtain pts where
    "parameterPosterior example_posterior 0 None =
       Inr [(''points'', Curve pts), (''mean'', Num 0),
            (''ci95'', Interval (studentTQuantile 0.025 2 0 1) (studentTQuantile 0.975 2 0 1)),
            (''ci80'', Interval (studentTQuantile 0.10 2 0 1) (studentTQuantile 0.90 2 0 1)),
            (''nu'', Num 2), (''scale'', Num 1)]"
    and "length pts = 200" and "sorted_wrt (<) (map fst pts)"
    and "fst (pts ! 0) = - 4" and "fst (pts ! 199) = 4"
    unfolding example_posterior_fields by auto
  with h show ?thesis by blast
qed

text \<open>
  The claim as stated fails: the returned object has no 50 percent interval.
\<close>

theorem parameterPosterior_ci50_counterexample:
  "fields_of (parameterPosterior example_posterior 0 None)
     = [''points'', ''mean'', ''ci95'', ''ci80'', ''nu'', ''scale'']
   \<and> field_of (parameterPosterior example_posterior 0 None) ''ci50'' = None
   \<and> parameterPosterior example_posterior 0 None \<noteq> Inl TypeError"
proof -
  have "0 < length (LambdaN_inv example_posterior)"
    by (simp add: example_posterior_fields)
  from parameterPosterior_keys [OF this, of None] obtain obj where
    rk: "parameterPosterior example_posterior 0 None = Inr obj
      \<and> map fst obj = [''points'', ''mean'', ''ci95'', ''ci80'', ''nu'', ''scale'']" ..
  then have r: "parameterPosterior example_posterior 0 None = Inr obj"
    and k: "map fst obj = [''points'', ''mean'', ''ci95'', ''ci80'', ''nu'', ''scale'']"
    by (rule conjunct1, rule conjunct2)
  have "fst ` set obj = set (map fst obj)"
    by simp
  then have "''ci50'' \<notin> fst ` set obj"
    unfolding k by simp
  then have "map_of obj ''ci50'' = None"
    by (simp add: map_of_eq_None_iff)
  with r k show ?thesis
    by (simp add: fields_of_def field_of_def)
qed

text \<open>
  Claim C5, as amended. Let the prior be fixed, with a symmetric positive definite
  precision and a positive shape and scale, and let observations be appended to the data
  (rows \<open>Xe\<close> to \<open>X\<close>, responses \<open>ye\<close> to \<open>y\<close>). Where both regressions return a posterior:
  the shape grows strictly, \<open>aN' = aN + k/2\<close> for \<open>k\<close> appended observations; the scale does
  not shrink, \<open>b0 \<le> bN \<le> bN'\<close>; every diagonal entry of the inverse precision is positive
  and does not grow, so that \<open>[LambdaN\<^sup>-\<^sup>1]\<^sub>j\<^sub>j / aN\<close> decreases strictly for every coefficient; and
  the marginal variance factor \<open>(bN/aN) [LambdaN\<^sup>-\<^sup>1]\<^sub>j\<^sub>j\<close> decreases strictly for every
  coefficient whenever the scale has not grown, which is the case when each appended
  response is the value the posterior mean predicts for it.
\<close>

theorem posterior_contraction:
  assumes shapes: "regression_shapes X y mu0 Lambda0 p"
    and more: "Xe \<noteq> []" and rows: "\<forall>r<length Xe. length (Xe ! r) = p"
    and len: "length ye = length Xe"
    and spd: "spd p Lambda0" and a0: "0 < a0" and b0: "0 < b0"
    and res: "bayesianRegression X y mu0 Lambda0 a0 b0 = Inr (Some post)"
    and res': "bayesianRegression (X @ Xe) (y @ ye) mu0 Lambda0 a0 b0 = Inr (Some post')"
  shows "aN post = a0 + real (length y) / 2
     \<and> aN post' = aN post + real (length ye) / 2
     \<and> 0 < aN post \<and> aN post < aN post'
     \<and> b0 \<le> bN post \<and> bN post \<le> bN post'
     \<and> (\<forall>j<p. 0 < LambdaN_inv post' ! j ! j
            \<and> LambdaN_inv post' ! j ! j \<le> LambdaN_inv post ! j ! j
            \<and> LambdaN_inv post' ! j ! j / aN post' < LambdaN_inv post ! j ! j / aN post
            \<and> (bN post' \<le> bN post \<longrightarrow> marginalVariance post' j < marginalVariance post j))
     \<and> ((\<forall>i<length Xe. ye ! i = vecDot (Xe ! i) (muN post))
          \<longrightarrow> bN post' = bN post \<and> (\<forall>j<p. marginalVariance post' j < marginalVariance post j))"
proof -
  have a: "aN post = a0 + real (length y) / 2"
    using res by (rule bayesianRegression_aN)
  have "aN post' = a0 + real (length (y @ ye)) / 2"
    using res' by (rule bayesianRegression_aN)
  then have a': "aN post' = aN post + real (length ye) / 2"
    by (simp add: a add_divide_distrib)
  have apos: "0 < aN post"
    using a0 by (simp add: a add_pos_nonneg)
  have k: "0 < length ye"
    using more len by simp
  then have lt: "aN post < aN post'"
    by (simp add: a')
  have b: "b0 \<le> bN post"
    using regression_design [OF shapes] spd res by (rule bN_penalised(3))
  have bb: "bN post \<le> bN post'"
    using shapes rows len spd res res' by (rule bN_mono(1))
  have diag: "0 < LambdaN_inv post' ! j ! j \<and> LambdaN_inv post' ! j ! j \<le> LambdaN_inv post ! j ! j"
    if "j < p" for j
    using shapes rows len spd res res' that by (rule LambdaN_inv_diag_mono)
  have ratio: "LambdaN_inv post' ! j ! j / aN post' < LambdaN_inv post ! j ! j / aN post"
    if "j < p" for j
  proof -
    from diag [OF that] have w: "0 < LambdaN_inv post' ! j ! j"
      and le: "LambdaN_inv post' ! j ! j \<le> LambdaN_inv post ! j ! j" by simp_all
    have "LambdaN_inv post' ! j ! j / aN post' < LambdaN_inv post' ! j ! j / aN post"
      using w apos lt by (simp add: frac_less2)
    also have "\<dots> \<le> LambdaN_inv post ! j ! j / aN post"
      using le apos by (simp add: divide_right_mono)
    finally show ?thesis .
  qed
  have var: "marginalVariance post' j < marginalVariance post j"
    if j: "j < p" and le: "bN post' \<le> bN post" for j
  proof -
    from diag [OF j] have w: "0 < LambdaN_inv post' ! j ! j"
      and d: "LambdaN_inv post' ! j ! j \<le> LambdaN_inv post ! j ! j" by simp_all
    have bpos: "0 < bN post'" using b0 b bb by simp
    have "bN post' * (LambdaN_inv post' ! j ! j / aN post')
        < bN post' * (LambdaN_inv post ! j ! j / aN post)"
      using ratio [OF j] bpos by (rule mult_strict_left_mono)
    also have "\<dots> \<le> bN post * (LambdaN_inv post ! j ! j / aN post)"
    proof (rule mult_right_mono [OF le])
      have "0 \<le> LambdaN_inv post ! j ! j" using w d by simp
      then show "0 \<le> LambdaN_inv post ! j ! j / aN post" using apos by simp
    qed
    finally show ?thesis by (simp add: marginalVariance_def)
  qed
  have fit: "bN post' = bN post \<and> (\<forall>j<p. marginalVariance post' j < marginalVariance post j)"
    if f: "\<forall>i<length Xe. ye ! i = vecDot (Xe ! i) (muN post)"
  proof -
    have e: "bN post' = bN post"
      using shapes rows len spd res res' f by (rule bN_mono(2))
    with var show ?thesis by simp
  qed
  show ?thesis
    using a a' apos lt b bb diag ratio var fit by blast
qed

theorem posterior_contraction_witness:
  "regression_shapes [[1]] [0] [0] [[1]] 1 \<and> [[1 :: real]] \<noteq> []
   \<and> length [[1 :: real]] = 1 \<and> length ([[1 :: real]] ! 0) = 1
   \<and> length [0 :: real] = length [[1 :: real]] \<and> spd 1 [[1]] \<and> 0 < (1 :: real)
   \<and> (\<exists>post post'. bayesianRegression [[1]] [0] [0] [[1]] 1 1 = Inr (Some post)
         \<and> bayesianRegression ([[1]] @ [[1]]) ([0] @ [0]) [0] [[1]] 1 1 = Inr (Some post')
         \<and> [0] ! 0 = vecDot ([[1]] ! 0) (muN post)
         \<and> aN post' = aN post + 1 / 2
         \<and> 0 < LambdaN_inv post' ! 0 ! 0
         \<and> LambdaN_inv post' ! 0 ! 0 \<le> LambdaN_inv post ! 0 ! 0
         \<and> bN post' = bN post
         \<and> marginalVariance post' 0 < marginalVariance post 0)"
proof -
  from contraction_example obtain post where
    p: "bayesianRegression [[1]] [0] [0] [[1]] 1 1 = Inr (Some post)" and m: "muN post = [0]"
    by blast
  from var_example_2 obtain post' where
    p': "bayesianRegression ([[1]] @ [[1]]) ([0] @ [0]) [0] [[1]] 1 1 = Inr (Some post')"
    by (auto simp add: result_variance_def split: sum.splits option.splits)
  have h: "regression_shapes [[1]] [0] [0] [[1]] 1" "[[1 :: real]] \<noteq> []"
    "\<forall>r<length [[1 :: real]]. length ([[1 :: real]] ! r) = 1"
    "length [0 :: real] = length [[1 :: real]]"
    by (simp_all add: regression_shapes_def square_def)
  have s: "spd 1 [[1]]" by (rule spd_example)
  have o: "0 < (1 :: real)" by simp
  have f: "\<forall>i<length [[1 :: real]]. [0] ! i = vecDot ([[1]] ! i) (muN post)"
    by (simp add: m vecDot_def reduce_idx_def)
  from posterior_contraction [OF h s o o p p'] f
  have "aN post' = aN post + 1 / 2" "0 < LambdaN_inv post' ! 0 ! 0"
    "LambdaN_inv post' ! 0 ! 0 \<le> LambdaN_inv post ! 0 ! 0"
    "bN post' = bN post" "marginalVariance post' 0 < marginalVariance post 0"
    by simp_all
  moreover from f have "[0] ! 0 = vecDot ([[1]] ! 0) (muN post)" by simp
  moreover have "length [[1 :: real]] = 1" "length ([[1 :: real]] ! 0) = 1" by simp_all
  ultimately show ?thesis using h(1,2,4) s o p p' by blast
qed

text \<open>
  The claim as stated fails: with prior precision 100, shape 100 and scale 0.001, the
  data \<open>x = 1, y = 1\<close> observed once and observed twice give a variance factor that grows
  with the second observation.
\<close>

theorem variance_contraction_counterexample:
  "result_variance (bayesianRegression [[1]] [1] [0] [[100]] 100 (1 / 1000)) 0
     = Some ((1 / 1000 + 50 / 101) / (201 / 2) / 101)
   \<and> result_variance (bayesianRegression [[1], [1]] [1, 1] [0] [[100]] 100 (1 / 1000)) 0
     = Some ((1 / 1000 + 50 / 51) / 101 / 102)
   \<and> (1 / 1000 + 50 / 101) / (201 / 2) / 101 < ((1 / 1000 + 50 / 51) / 101 / 102 :: real)"
  using var_example_3 var_example_4 by simp

text \<open>
  Claim C6. With at most as many responses as temperatures and a positive step, \<open>changePointPosterior\<close> returns without error; the
  locations of the returned candidates are, in scan order, the grid points whose
  regression does not return the failure value; each candidate carries the posterior of
  its own fit; a grid point with a singular system is not among them; and when every grid
  point fails the result is the empty sequence.
\<close>

theorem changePointPosterior_drops_singular:
  fixes temps :: "real list" and y :: vec and cpStepArg :: "real option"
    and modelType :: string and pri :: priors
  assumes "length y \<le> length temps"
    and "0 < (case cpStepArg of None \<Rightarrow> 1 / 2 | Some s \<Rightarrow> s)"
  defines "locs \<equiv> searchGrid temps modelType (case cpStepArg of None \<Rightarrow> 1 / 2 | Some s \<Rightarrow> s)"
  shows "\<exists>rs. changePointPosterior temps y modelType pri cpStepArg = Some (Inr rs)
     \<and> map (\<lambda>r. (c_cp r, c_cp2 r)) rs
         = filter (\<lambda>(cp, cp2). candidateFit temps y modelType pri cp cp2 \<noteq> Inr None) locs
     \<and> (\<forall>r\<in>set rs. candidateFit temps y modelType pri (c_cp r) (c_cp2 r) = Inr (Some (c_post r))
            \<and> c_logML r = logML (c_post r))
     \<and> (\<forall>(cp, cp2)\<in>set locs. candidateFit temps y modelType pri cp cp2 = Inr None
            \<longrightarrow> (cp, cp2) \<notin> set (map (\<lambda>r. (c_cp r, c_cp2 r)) rs))
     \<and> ((\<forall>(cp, cp2)\<in>set locs. candidateFit temps y modelType pri cp cp2 = Inr None) \<longrightarrow> rs = [])"
proof (cases "temps = []")
  case True
  then have "locs = []" and "changePointPosterior temps y modelType pri cpStepArg = Some (Inr [])"
    by (simp_all add: locs_def searchGrid_def changePointPosterior_def Let_def)
  then show ?thesis by simp
next
  case False
  define raw where "raw = fitsAt temps y modelType pri locs"
  have res: "changePointPosterior temps y modelType pri cpStepArg = Some (Inr (normalize raw))"
    unfolding raw_def locs_def using False assms(1,2) by (rule changePointPosterior_grid')
  have m: "map (\<lambda>r. (c_cp r, c_cp2 r)) (normalize raw)
      = filter (\<lambda>(cp, cp2). candidateFit temps y modelType pri cp cp2 \<noteq> Inr None) locs"
    by (simp add: normalize_locations raw_def fitsAt_locations [OF False assms(1)])
  have p: "candidateFit temps y modelType pri (c_cp r) (c_cp2 r) = Inr (Some (c_post r))
      \<and> c_logML r = logML (c_post r)" if "r \<in> set (normalize raw)" for r
    using normalize_fields [OF that] fitsAt_post [of _ temps y modelType pri locs]
    by (auto simp add: raw_def)
  have e: "normalize raw = []"
    if "\<forall>(cp, cp2)\<in>set locs. candidateFit temps y modelType pri cp cp2 = Inr None"
  proof -
    from that have "filter (\<lambda>(cp, cp2). candidateFit temps y modelType pri cp cp2 \<noteq> Inr None) locs = []"
      by (auto simp add: filter_empty_conv)
    with m show ?thesis by simp
  qed
  have "changePointPosterior temps y modelType pri cpStepArg = Some (Inr (normalize raw))
     \<and> map (\<lambda>r. (c_cp r, c_cp2 r)) (normalize raw)
         = filter (\<lambda>(cp, cp2). candidateFit temps y modelType pri cp cp2 \<noteq> Inr None) locs
     \<and> (\<forall>r\<in>set (normalize raw).
            candidateFit temps y modelType pri (c_cp r) (c_cp2 r) = Inr (Some (c_post r))
            \<and> c_logML r = logML (c_post r))
     \<and> (\<forall>(cp, cp2)\<in>set locs. candidateFit temps y modelType pri cp cp2 = Inr None
            \<longrightarrow> (cp, cp2) \<notin> set (map (\<lambda>r. (c_cp r, c_cp2 r)) (normalize raw)))
     \<and> ((\<forall>(cp, cp2)\<in>set locs. candidateFit temps y modelType pri cp cp2 = Inr None)
            \<longrightarrow> normalize raw = [])"
    using res p e unfolding m by (simp add: split_def)
  then show ?thesis by (rule exI)
qed

theorem changePointPosterior_drops_singular_witness:
  "length [1, 2 :: real] \<le> length [0, 14 :: real]
   \<and> 0 < (case Some 1 of None \<Rightarrow> 1 / 2 | Some s \<Rightarrow> (s :: real))
   \<and> candidateFit [0, 14] [1, 2] ''5P'' (example_priors 0) 4 (Some 10) = Inr None
   \<and> changePointPosterior [0, 14] [1, 2] ''5P'' (example_priors 0) (Some 1) = Some (Inr [])
   \<and> (\<exists>rs. changePointPosterior [0, 7] [1, 2] ''3PH'' (example_priors 1) (Some 1) = Some (Inr rs)
         \<and> map (\<lambda>r. (c_cp r, c_cp2 r)) rs = [(3, None), (4, None)])"
proof -
  have h: "length [1, 2 :: real] \<le> length [0, 14 :: real]"
    "0 < (case Some 1 of None \<Rightarrow> 1 / 2 | Some s \<Rightarrow> (s :: real))"
    by simp_all
  have h': "length [1, 2 :: real] \<le> length [0, 7 :: real]"
    by simp
  from changePointPosterior_drops_singular [OF h, of "''5P''" "example_priors 0"]
  have a: "changePointPosterior [0, 14] [1, 2] ''5P'' (example_priors 0) (Some 1) = Some (Inr [])"
    by (auto simp add: grid_example_5P fit_example_5P)
  from changePointPosterior_drops_singular [OF h' h(2), of "''3PH''" "example_priors 1"]
  have b: "\<exists>rs. changePointPosterior [0, 7] [1, 2] ''3PH'' (example_priors 1) (Some 1) = Some (Inr rs)
         \<and> map (\<lambda>r. (c_cp r, c_cp2 r)) rs = [(3, None), (4, None)]"
    by (auto simp add: grid_example_3P fit_example_3P)
  show ?thesis using a b h fit_example_5P by blast
qed

text \<open>
  Claim C7, at the input where the code departs from it. With one sample requested the
  sorted sequence has one element, the sample range and the bin width are 0, and the
  histogram loop raises a TypeError: on the constant random sequence 1/4 the one total is
  50 and the call raises after 7 draws, and no random sequence, posterior or reporting
  data makes the call with one sample return a summary. (For a sample range that is not
  0 the summary is as the claim says: \<open>savingsPosterior_summary\<close>.)
\<close>

theorem savingsPosterior_single_sample_throws:
  "savingsPosterior quarter_rng 0 sampler_posterior ''3PH'' (Some 50) None
     [\<lparr> temp = 40, actual = 100 \<rparr>] (Some 1) = Some (Inl TypeError, 7)
   \<and> (\<forall>src pos post modelType cp1 cp2 reportingData res pos'.
         savingsPosterior src pos post modelType cp1 cp2 reportingData (Some 1)
           \<noteq> Some (Inr res, pos'))"
proof -
  have "savingsPosterior quarter_rng 0 sampler_posterior ''3PH'' (Some 50) None
     [\<lparr> temp = 40, actual = 100 \<rparr>] (Some 1) = Some (Inl TypeError, 7)"
    by (simp add: savingsPosterior_def drawSample_quarter summarize_one)
  then show ?thesis using savingsPosterior_one_sample by blast
qed

text \<open>
  Claim C8. For every list of temperatures and every tag other than 3PH, 3PC and 5P,
  \<open>buildDesignMatrix\<close> returns the linear design whose i-th row is \<open>[1, t\<^sub>i]\<close>, whatever the
  two change-point arguments are.
\<close>

theorem buildDesignMatrix_default:
  assumes "modelType \<noteq> ''3PH''" and "modelType \<noteq> ''3PC''" and "modelType \<noteq> ''5P''"
  shows "buildDesignMatrix temps modelType cp1 cp2 = map (\<lambda>t. [1, t]) temps
    \<and> length (buildDesignMatrix temps modelType cp1 cp2) = length temps
    \<and> (\<forall>i < length temps. buildDesignMatrix temps modelType cp1 cp2 ! i = [1, temps ! i])"
  using assms by (simp add: buildDesignMatrix_def)

theorem buildDesignMatrix_default_witness:
  "''2P'' \<noteq> ''3PH'' \<and> ''2P'' \<noteq> ''3PC'' \<and> ''2P'' \<noteq> ''5P''
   \<and> buildDesignMatrix [30, 50, 70] ''2P'' (Some 45) None = [[1, 30], [1, 50], [1, 70]]
   \<and> buildDesignMatrix [30, 50, 70] ''2P'' (Some 45) (Some 60) ! 1 = [1, 50]"
  using buildDesignMatrix_default [of "''2P''" "[30, 50, 70]" "Some 45" None]
    buildDesignMatrix_default [of "''2P''" "[30, 50, 70]" "Some 45" "Some 60"]
  by simp

text \<open>
  Claim C9. For every tag other than 3PH, 3PC and 5P, \<open>changePointPosterior\<close> enters no
  loop and returns the empty sequence, without error, whatever the other arguments are.
\<close>

theorem changePointPosterior_other_shapes:
  assumes "modelType \<noteq> ''3PH''" and "modelType \<noteq> ''3PC''" and "modelType \<noteq> ''5P''"
  shows "changePointPosterior temps y modelType pri cpStepArg = Some (Inr [])"
  using assms by (simp add: changePointPosterior_def Let_def)

theorem changePointPosterior_other_shapes_witness:
  "''2P'' \<noteq> ''3PH'' \<and> ''2P'' \<noteq> ''3PC'' \<and> ''2P'' \<noteq> ''5P''
   \<and> changePointPosterior [30, 50, 70] [1, 2, 3] ''2P''
        \<lparr> baseload = 1, slope = 1, slope2 = None, strength = 1, noiseA = 3, noiseB = 1 \<rparr> None
      = Some (Inr [])"
  using changePointPosterior_other_shapes [of "''2P''" "[30, 50, 70]" "[1, 2, 3]"
      "\<lparr> baseload = 1, slope = 1, slope2 = None, strength = 1, noiseA = 3, noiseB = 1 \<rparr>" None]
  by simp

text \<open>
  Claim C10. \<open>logGamma\<close> returns a value at every real argument (its recursion
  terminates): positive infinity at every \<open>z \<le> 0\<close>; for \<open>0 < z < 0.5\<close> the reflection
  formula, whose one recursive call is at \<open>1 - z > 0.5\<close> and returns the Lanczos sum without
  a further call; the Lanczos sum from 0.5 on. The nesting depth of calls is at most one.
\<close>

theorem logGamma_total:
  "(z \<le> 0 \<longrightarrow> logGamma z = PInf \<and> logGamma_depth z = 0)
   \<and> (0 < z \<and> z < 1 / 2 \<longrightarrow>
         1 / 2 < 1 - z
       \<and> logGamma (1 - z) = Fin (lanczos (1 - z)) \<and> logGamma_depth (1 - z) = 0
       \<and> logGamma z = xsub (ln (pi / sin (pi * z))) (logGamma (1 - z))
       \<and> logGamma z = Fin (ln (pi / sin (pi * z)) - lanczos (1 - z))
       \<and> logGamma_depth z = 1)
   \<and> (1 / 2 \<le> z \<longrightarrow> logGamma z = Fin (lanczos z) \<and> logGamma_depth z = 0)
   \<and> (logGamma z = PInf \<or> (\<exists>r. logGamma z = Fin r))
   \<and> logGamma_depth z \<le> 1"
  by (simp add: logGamma.simps [of z] logGamma.simps [of "1 - z"]
      logGamma_depth.simps [of z] logGamma_depth.simps [of "1 - z"])

theorem logGamma_total_witness:
  "logGamma (- 1) = PInf \<and> logGamma 0 = PInf
   \<and> logGamma (1 / 4) = Fin (ln (pi / sin (pi * (1 / 4))) - lanczos (3 / 4))
   \<and> logGamma_depth (1 / 4) = 1
   \<and> logGamma 2 = Fin (lanczos 2) \<and> logGamma_depth 2 = 0"
  using logGamma_total [of "- 1"] logGamma_total [of 0] logGamma_total [of "1 / 4"]
    logGamma_total [of 2]
  by simp

end
